theory Spec2Isabelle
  imports Main "HOL-Library.Sublist" "HOL-Library.Multiset"
begin

section \<open>String primitives of the host language\<close>

text \<open>
  The program is a Python script working on \<open>str\<close> values. Strings are modelled as
  \<^typ>\<open>string\<close>; the primitives below are the library calls the script uses
  (\<open>str.split\<close>, \<open>str.join\<close>, \<open>str.startswith\<close>, \<open>in\<close>, \<open>str.find\<close>,
  \<open>str.strip\<close>, \<open>str.replace\<close>), written out as recursive functions.
\<close>

datatype py_error = TypeError | UnboundLocalError | IndexError

definition newline :: char where
  "newline = CHR 0x0A"

text \<open>\<open>line.startswith(pattern)\<close>\<close>

definition startswith :: "string \<Rightarrow> string \<Rightarrow> bool" where
  "startswith line pattern = prefix pattern line"

text \<open>\<open>s.split(c)\<close> for a one-character separator: always at least one piece.\<close>

fun split_char :: "char \<Rightarrow> string \<Rightarrow> string list" where
  "split_char sep [] = [[]]"
| "split_char sep (c # cs) =
     (if c = sep then [] # split_char sep cs
      else (case split_char sep cs of
              [] \<Rightarrow> [[c]]
            | l # ls \<Rightarrow> (c # l) # ls))"

text \<open>\<open>sep.join(pieces)\<close> for a one-character separator.\<close>

fun join_char :: "char \<Rightarrow> string list \<Rightarrow> string" where
  "join_char sep [] = []"
| "join_char sep [l] = l"
| "join_char sep (l # ls) = l @ sep # join_char sep ls"

text \<open>Python's slice \<open>xs[a:b]\<close> for non-negative bounds (clamped to the list).\<close>

definition slice :: "'a list \<Rightarrow> nat \<Rightarrow> nat \<Rightarrow> 'a list" where
  "slice xs a b = take (b - a) (drop a xs)"

section \<open>Section Relocator: \<open>move_to_top\<close> and \<open>move_to_bottom\<close>\<close>

type_synonym line_range = "nat \<times> nat"

text \<open>
  The scanning loop of \<open>move_to_top\<close> over \<open>enumerate(lines)\<close>. The state is the list
  \<open>sections\<close> and the variable \<open>start_index\<close> (\<open>None\<close> or a line number); the end
  pattern may be \<open>None\<close>, which the \<open>elif\<close> tests before calling \<open>startswith\<close>.
\<close>

fun top_loop ::
  "string \<Rightarrow> string option \<Rightarrow> (nat \<times> string) list \<Rightarrow> line_range list \<Rightarrow> nat option
     \<Rightarrow> line_range list \<times> nat option" where
  "top_loop sp ep [] sections start_index = (sections, start_index)"
| "top_loop sp ep ((i, line) # rest) sections start_index =
     (if startswith line sp then
        (case start_index of
           Some a \<Rightarrow> top_loop sp ep rest (sections @ [(a, i)]) (Some i)
         | None \<Rightarrow> top_loop sp ep rest sections (Some i))
      else
        (case ep of
           None \<Rightarrow> top_loop sp ep rest sections start_index
         | Some e \<Rightarrow>
             (if startswith line e then
                (case start_index of
                   Some a \<Rightarrow> top_loop sp ep rest (sections @ [(a, i)]) None
                 | None \<Rightarrow> top_loop sp ep rest sections start_index)
              else top_loop sp ep rest sections start_index)))"

text \<open>
  The loop of \<open>move_to_bottom\<close>. Its \<open>elif\<close> calls \<open>line.startswith(end_pattern)\<close>
  without testing for \<open>None\<close> first, and \<open>str.startswith(None)\<close> raises \<open>TypeError\<close>;
  the call is reached for every line that does not start with the start pattern.
\<close>

fun bottom_loop ::
  "string \<Rightarrow> string option \<Rightarrow> (nat \<times> string) list \<Rightarrow> line_range list \<Rightarrow> nat option
     \<Rightarrow> py_error + (line_range list \<times> nat option)" where
  "bottom_loop sp ep [] sections start_index = Inr (sections, start_index)"
| "bottom_loop sp ep ((i, line) # rest) sections start_index =
     (if startswith line sp then
        (case start_index of
           Some a \<Rightarrow> bottom_loop sp ep rest (sections @ [(a, i)]) (Some i)
         | None \<Rightarrow> bottom_loop sp ep rest sections (Some i))
      else
        (case ep of
           None \<Rightarrow> Inl TypeError
         | Some e \<Rightarrow>
             (if startswith line e then
                (case start_index of
                   Some a \<Rightarrow> bottom_loop sp ep rest (sections @ [(a, i)]) None
                 | None \<Rightarrow> bottom_loop sp ep rest sections start_index)
              else bottom_loop sp ep rest sections start_index)))"

text \<open>After the loop: a section still open runs to \<open>len(lines)\<close>.\<close>

definition close_last :: "nat \<Rightarrow> line_range list \<times> nat option \<Rightarrow> line_range list" where
  "close_last n st =
     (case st of
        (sections, Some a) \<Rightarrow> sections @ [(a, n)]
      | (sections, None) \<Rightarrow> sections)"

text \<open>\<open>any(start <= i < end for start, end in sections)\<close>\<close>

definition in_sections :: "line_range list \<Rightarrow> nat \<Rightarrow> bool" where
  "in_sections sections i = list_ex (\<lambda>(s, e). s \<le> i \<and> i < e) sections"

definition section_contents :: "string list \<Rightarrow> line_range list \<Rightarrow> string list list" where
  "section_contents lines sections = map (\<lambda>(s, e). slice lines s e) sections"

definition rest_of_content :: "string list \<Rightarrow> line_range list \<Rightarrow> string list" where
  "rest_of_content lines sections =
     map snd (filter (\<lambda>(i, line). \<not> in_sections sections i) (enumerate 0 lines))"

definition top_sections :: "string \<Rightarrow> string option \<Rightarrow> string list \<Rightarrow> line_range list" where
  "top_sections sp ep lines =
     close_last (length lines) (top_loop sp ep (enumerate 0 lines) [] None)"

definition move_to_top :: "string \<Rightarrow> string \<Rightarrow> string option \<Rightarrow> string" where
  "move_to_top file_content start_pattern end_pattern =
     (let lines = split_char newline file_content;
          sections = top_sections start_pattern end_pattern lines;
          modified_content =
            concat (section_contents lines sections) @ rest_of_content lines sections
      in join_char newline modified_content)"

definition move_to_bottom :: "string \<Rightarrow> string \<Rightarrow> string option \<Rightarrow> py_error + string" where
  "move_to_bottom file_content start_pattern end_pattern =
     (let lines = split_char newline file_content in
      case bottom_loop start_pattern end_pattern (enumerate 0 lines) [] None of
        Inl err \<Rightarrow> Inl err
      | Inr st \<Rightarrow>
          (let sections = close_last (length lines) st;
               modified_content =
                 rest_of_content lines sections @ concat (section_contents lines sections)
           in Inr (join_char newline modified_content)))"

subsection \<open>Matched sections, as the specification describes them\<close>

text \<open>
  The specification's account of a section, on line numbers and without the loop: a line
  that starts with the start marker opens a section; the section is closed by the next
  line that starts with the end marker (when one is given) and not with the start marker,
  and that line is outside it. So line \<open>i\<close> lies in a matched section exactly when some
  line \<open>j \<le> i\<close> starts with the start marker and no line after \<open>j\<close>, up to and including
  \<open>i\<close>, closes the section.
\<close>

definition closes_section :: "string \<Rightarrow> string option \<Rightarrow> string \<Rightarrow> bool" where
  "closes_section sp ep line =
     (\<not> startswith line sp \<and> (case ep of None \<Rightarrow> False | Some e \<Rightarrow> startswith line e))"

definition matched_line :: "string \<Rightarrow> string option \<Rightarrow> string list \<Rightarrow> nat \<Rightarrow> bool" where
  "matched_line sp ep lines i =
     list_ex (\<lambda>j. startswith (lines ! j) sp \<and>
                  list_all (\<lambda>k. \<not> closes_section sp ep (lines ! k)) [Suc j..<Suc i])
       [0..<Suc i]"

section \<open>Regular-expression scanning\<close>

text \<open>
  \<open>re.sub\<close> and \<open>re.findall\<close> scan the text from left to right: at each position the
  pattern is tried; where it matches, the match is consumed and scanning resumes right
  after it, otherwise scanning moves on by one character. A pattern is given here by its
  matcher at the current position, which returns the length of the match (and what
  \<open>findall\<close> collects for it). Every pattern of the script begins with a literal
  character, so it never matches the empty string. The first argument of the scanners
  counts the characters of the current match that are still to be skipped.
\<close>

fun re_sub :: "(string \<Rightarrow> nat option) \<Rightarrow> (string \<Rightarrow> string) \<Rightarrow> nat \<Rightarrow> string \<Rightarrow> string" where
  "re_sub m repl skip [] = []"
| "re_sub m repl (Suc k) (c # cs) = re_sub m repl k cs"
| "re_sub m repl 0 (c # cs) =
     (case m (c # cs) of
        None \<Rightarrow> c # re_sub m repl 0 cs
      | Some n \<Rightarrow> repl (take n (c # cs)) @ re_sub m repl (n - 1) cs)"

fun re_findall :: "(string \<Rightarrow> (nat \<times> 'a) option) \<Rightarrow> nat \<Rightarrow> string \<Rightarrow> 'a list" where
  "re_findall m skip [] = []"
| "re_findall m (Suc k) (c # cs) = re_findall m k cs"
| "re_findall m 0 (c # cs) =
     (case m (c # cs) of
        None \<Rightarrow> re_findall m 0 cs
      | Some (n, captured) \<Rightarrow> captured # re_findall m (n - 1) cs)"

text \<open>\<open>s.find(pattern)\<close>: the index of the first occurrence, \<open>None\<close> for Python's \<open>-1\<close>.\<close>

fun find_str :: "string \<Rightarrow> string \<Rightarrow> nat option" where
  "find_str pattern [] = (if pattern = [] then Some 0 else None)"
| "find_str pattern (c # cs) =
     (if prefix pattern (c # cs) then Some 0
      else map_option Suc (find_str pattern cs))"

text \<open>\<open>pattern in s\<close>\<close>

definition contains :: "string \<Rightarrow> string \<Rightarrow> bool" where
  "contains s pattern = (find_str pattern s \<noteq> None)"

section \<open>Inline Markup Rewriter\<close>

subsection \<open>\<open>remove_output_blocks\<close>\<close>

definition output_marker :: string where
  "output_marker = ''// Output:''"

definition fence :: string where
  "fence = ''```''"

text \<open>
  The pattern \<open>// Output:.*?```\<close> compiled with \<open>re.DOTALL\<close>: the literal marker, then
  as few characters as possible (newlines included) up to the first \<open>```\<close>.
\<close>

definition output_pattern :: "string \<Rightarrow> nat option" where
  "output_pattern s =
     (if prefix output_marker s then
        (case find_str fence (drop (length output_marker) s) of
           None \<Rightarrow> None
         | Some k \<Rightarrow> Some (length output_marker + k + length fence))
      else None)"

definition remove_output_blocks :: "string \<Rightarrow> string" where
  "remove_output_blocks content = re_sub output_pattern (\<lambda>matched. ''```'') 0 content"

subsection \<open>\<open>correct_escaping_in_links\<close>\<close>

text \<open>
  The pattern \<open>(\[/v1[^\]]+\])\<close>: the literal \<open>[/v1\<close>, one or more characters other
  than \<open>]\<close>, then \<open>]\<close>. The run of the character class cannot step over a \<open>]\<close>, so the
  match ends at the first \<open>]\<close> after \<open>[/v1\<close>, and at least one character lies between.
\<close>

definition link_pattern :: "string \<Rightarrow> nat option" where
  "link_pattern s =
     (if prefix ''[/v1'' s then
        (let run = takeWhile (\<lambda>c. c \<noteq> CHR '']'') (drop 4 s) in
         if run \<noteq> [] \<and> length run < length (drop 4 s) then Some (4 + length run + 1)
         else None)
      else None)"

text \<open>
  The replacement callback. \<open>cleaned_match[0]\<close> and \<open>cleaned_match[-1]\<close> are the two
  brackets: removing backslashes never removes them, so the indexing cannot fail on a
  match of the pattern.
\<close>

definition remove_escapes_and_check_braces :: "string \<Rightarrow> string" where
  "remove_escapes_and_check_braces matched =
     (let cleaned_match = filter (\<lambda>c. c \<noteq> CHR 0x5C) matched in
      if CHR ''{'' \<in> set cleaned_match \<or> CHR ''}'' \<in> set cleaned_match then
        take 1 cleaned_match @ ''`'' @ butlast (drop 1 cleaned_match) @ ''`'' @
        drop (length cleaned_match - 1) cleaned_match
      else cleaned_match)"

definition correct_escaping_in_links :: "string \<Rightarrow> string" where
  "correct_escaping_in_links content =
     re_sub link_pattern remove_escapes_and_check_braces 0 content"

subsection \<open>\<open>move_responses_to_top\<close>\<close>

text \<open>
  The pattern \<open><a name="([^"]*Response)(?=")"></a>\<close>. The group cannot step over a
  double quote and must be followed by one, so it is the whole run of characters up to
  the next double quote; that run has to end in \<open>Response\<close> and be followed by
  \<open>"></a>\<close>. \<open>findall\<close> collects the group.
\<close>

definition response_struct_pattern :: "string \<Rightarrow> (nat \<times> string) option" where
  "response_struct_pattern s =
     (if prefix ''<a name=\"'' s then
        (let rest = drop 9 s;
             name = takeWhile (\<lambda>c. c \<noteq> CHR 0x22) rest
         in if suffix ''Response'' name \<and> prefix ''\"></a>'' (drop (length name) rest)
            then Some (9 + length name + 6, name)
            else None)
      else None)"

text \<open>
  The pattern \<open><a name="((?!Response).)*">\<close>. Each repetition of the group consumes one
  character that is not a newline, at a position where the text does not continue with
  \<open>Response\<close>; \<open>non_response_run\<close> is the largest number of repetitions possible. The
  greedy star then gives characters back one at a time until \<open>">\<close> follows
  (\<open>non_response_close\<close>). The group is inside the star, so what \<open>findall\<close> collects is
  the text of its last repetition: a single character, or the empty string when the
  group was not repeated at all.
\<close>

fun non_response_run :: "string \<Rightarrow> nat" where
  "non_response_run [] = 0"
| "non_response_run (c # cs) =
     (if prefix ''Response'' (c # cs) \<or> c = newline then 0
      else Suc (non_response_run cs))"

fun non_response_close :: "string \<Rightarrow> nat \<Rightarrow> nat option" where
  "non_response_close rest 0 = (if prefix ''\">'' rest then Some 0 else None)"
| "non_response_close rest (Suc k) =
     (if prefix ''\">'' (drop (Suc k) rest) then Some (Suc k)
      else non_response_close rest k)"

definition non_response_pattern :: "string \<Rightarrow> (nat \<times> string) option" where
  "non_response_pattern s =
     (if prefix ''<a name=\"'' s then
        (let rest = drop 9 s in
         case non_response_close rest (non_response_run rest) of
           None \<Rightarrow> None
         | Some k \<Rightarrow> Some (9 + k + 2, take 1 (drop (k - 1) (take k rest))))
      else None)"

text \<open>\<open>file_content.find(x)\<close> as an integer, \<open>-1\<close> when absent.\<close>

definition find_index :: "string \<Rightarrow> string \<Rightarrow> int" where
  "find_index s pattern = (case find_str pattern s of None \<Rightarrow> - 1 | Some k \<Rightarrow> int k)"

definition anchor_tag :: "string \<Rightarrow> string" where
  "anchor_tag name = ''<a name=\"'' @ name @ ''\"></a>''"

text \<open>
  The inner loop over \<open>non_response_patterns\<close>: the first element, in iteration order,
  whose anchor is found behind the response anchor ends the loop.
\<close>

fun find_end_pattern :: "string \<Rightarrow> string \<Rightarrow> string list \<Rightarrow> string option" where
  "find_end_pattern file_content start_pattern [] = None"
| "find_end_pattern file_content start_pattern (non_response # rest) =
     (let non_response_index = find_index file_content (anchor_tag non_response);
          response_index = find_index file_content start_pattern
      in if non_response_index > response_index then Some (anchor_tag non_response)
         else find_end_pattern file_content start_pattern rest)"

text \<open>
  The outer loop over \<open>response_struct_patterns\<close>. An end pattern that was found is a
  non-empty string, hence true in \<open>if end_pattern\<close>.
\<close>

fun responses_loop :: "string \<Rightarrow> string list \<Rightarrow> string list \<Rightarrow> string \<Rightarrow> string" where
  "responses_loop file_content non_response_patterns [] modified_content = modified_content"
| "responses_loop file_content non_response_patterns (pattern # rest) modified_content =
     (let start_pattern = anchor_tag pattern;
          end_pattern = find_end_pattern file_content start_pattern non_response_patterns
      in responses_loop file_content non_response_patterns rest
           (move_to_top modified_content start_pattern end_pattern))"

text \<open>
  Both collections are Python sets of strings, whose iteration order the language leaves
  open. \<open>set_order found order\<close> says that \<open>order\<close> is a possible iteration order of
  \<open>set(found)\<close>: it lists the elements of \<open>found\<close>, each once.
  \<open>move_responses_to_top_in\<close> is the function run with the two iteration orders given;
  every run of the code is one of these. \<open>move_responses_to_top\<close> is the run that
  iterates both sets in order of first occurrence in the document.
\<close>

definition set_order :: "string list \<Rightarrow> string list \<Rightarrow> bool" where
  "set_order found order = (distinct order \<and> set order = set found)"

definition first_occurrences :: "string list \<Rightarrow> string list" where
  "first_occurrences found = rev (remdups (rev found))"

definition move_responses_to_top_in :: "string list \<Rightarrow> string list \<Rightarrow> string \<Rightarrow> string" where
  "move_responses_to_top_in response_struct_patterns non_response_patterns file_content =
     responses_loop file_content non_response_patterns response_struct_patterns file_content"

definition move_responses_to_top :: "string \<Rightarrow> string" where
  "move_responses_to_top file_content =
     move_responses_to_top_in
       (first_occurrences (re_findall response_struct_pattern 0 file_content))
       (first_occurrences (re_findall non_response_pattern 0 file_content))
       file_content"

section \<open>Method Block Extractor: \<open>find_method_blocks_and_relocate\<close>\<close>

text \<open>
  \<open>str.strip()\<close> removes leading and trailing whitespace; for the code points below 256
  \<open>str.isspace\<close> holds of 9 to 13, 28 to 32, 133 and 160.
\<close>

definition is_space :: "char \<Rightarrow> bool" where
  "is_space c =
     (let n = (of_char c :: nat)
      in (9 \<le> n \<and> n \<le> 13) \<or> (28 \<le> n \<and> n \<le> 32) \<or> n = 133 \<or> n = 160)"

definition strip :: "string \<Rightarrow> string" where
  "strip s = rev (dropWhile is_space (rev (dropWhile is_space s)))"

text \<open>\<open>xs.insert(i, x)\<close>: a negative index counts from the end, any index is clamped.\<close>

definition list_insert :: "'a list \<Rightarrow> int \<Rightarrow> 'a \<Rightarrow> 'a list" where
  "list_insert xs i x =
     (let k = (if i < 0 then nat (int (length xs) + i) else nat i)
      in take k xs @ [x] @ drop k xs)"

text \<open>\<open>del xs[a:b]\<close> for non-negative bounds.\<close>

definition del_slice :: "'a list \<Rightarrow> nat \<Rightarrow> nat \<Rightarrow> 'a list" where
  "del_slice xs a b = (if a \<le> b then take a xs @ drop b xs else xs)"

text \<open>The first \<open>j\<close> in \<open>range(a, len(lines))\<close> whose line satisfies the test.\<close>

fun first_from :: "(string \<Rightarrow> bool) \<Rightarrow> nat \<Rightarrow> string list \<Rightarrow> nat option" where
  "first_from test a [] = None"
| "first_from test a (l # ls) =
     (if test l then Some a else first_from test (Suc a) ls)"

definition first_line_from :: "(string \<Rightarrow> bool) \<Rightarrow> nat \<Rightarrow> string list \<Rightarrow> nat option" where
  "first_line_from test a lines = first_from test a (drop a lines)"

record method_block =
  block_type_name :: string
  start_line_number :: nat
  end_line_number :: nat
  block_content :: string

text \<open>
  The local variables of the scanning loop. \<open>cur_end_line_number\<close> is the variable
  \<open>end_line_number\<close>, which is unbound (\<open>None\<close>) until the first method anchor that is
  followed by another anchor line, and keeps its last value afterwards.
  \<open>method_blocks\<close> is the dictionary from suffix to block.
\<close>

record scan_state =
  type_definition_found :: bool
  type_end_loop :: bool
  type_name :: string
  type_end_line :: nat
  first_method_line_number :: "nat option"
  cur_end_line_number :: "nat option"
  method_blocks :: "(string \<times> method_block) list"

definition initial_scan_state :: scan_state where
  "initial_scan_state =
     \<lparr> type_definition_found = False, type_end_loop = False, type_name = [],
       type_end_line = 0, first_method_line_number = None, cur_end_line_number = None,
       method_blocks = [] \<rparr>"

definition method_suffixes :: "string list" where
  "method_suffixes = [''.Get'', ''.Raw'', ''.Packed'']"

text \<open>\<open>method_blocks[key] = block\<close>: a key already present keeps its position.\<close>

fun dict_set :: "(string \<times> 'v) list \<Rightarrow> string \<Rightarrow> 'v \<Rightarrow> (string \<times> 'v) list" where
  "dict_set [] key v = [(key, v)]"
| "dict_set ((k, w) # rest) key v =
     (if k = key then (k, v) # rest else (k, w) # dict_set rest key v)"

text \<open>
  The innermost loop over \<open>method_suffixes\<close>: the first suffix whose full anchor occurs
  in the stripped line stores a block and ends the loop. Building the block reads
  \<open>end_line_number\<close>, which raises \<open>UnboundLocalError\<close> while it is unbound.
\<close>

fun store_method ::
  "string list \<Rightarrow> string \<Rightarrow> nat \<Rightarrow> string list \<Rightarrow> scan_state \<Rightarrow> py_error + scan_state" where
  "store_method lines stripped_line i [] st = Inr st"
| "store_method lines stripped_line i (method_suffix # rest) st =
     (if contains stripped_line (''<a name=\"'' @ type_name st @ method_suffix @ ''\"></a>'') then
        (case cur_end_line_number st of
           None \<Rightarrow> Inl UnboundLocalError
         | Some e \<Rightarrow>
             Inr (st\<lparr> method_blocks :=
                    dict_set (method_blocks st) method_suffix
                      \<lparr> block_type_name = type_name st,
                        start_line_number = i,
                        end_line_number = e,
                        block_content = join_char newline (slice lines i (e + 1)) \<rparr> \<rparr>))
      else store_method lines stripped_line i rest st)"

text \<open>One pass of the body of \<open>for i, line in enumerate(lines)\<close>.\<close>

definition scan_line :: "string list \<Rightarrow> nat \<Rightarrow> string \<Rightarrow> scan_state \<Rightarrow> py_error + scan_state" where
  "scan_line lines i line st =
     (let stripped_line = strip line in
      if \<not> type_definition_found st \<and> startswith stripped_line ''<a'' \<and>
         contains stripped_line ''Request''
      then
        (case split_char (CHR 0x22) stripped_line of
           _ # name # _ \<Rightarrow> Inr (st\<lparr> type_definition_found := True, type_name := name \<rparr>)
         | _ \<Rightarrow> Inl IndexError)
      else
        (let st1 =
               (if type_definition_found st \<and> \<not> type_end_loop st then
                  st\<lparr> type_end_line :=
                        (case first_line_from (\<lambda>l. contains l ''## type'') (i + 1) lines of
                           Some j \<Rightarrow> j
                         | None \<Rightarrow> length lines - 1),
                      type_end_loop := True \<rparr>
                else st)
         in if type_definition_found st1 \<and>
               startswith stripped_line (''<a name=\"'' @ type_name st1 @ ''.'')
            then
              (let start = i;
                   st2 = (case first_line_from (\<lambda>l. startswith (strip l) ''<a'') (i + 1) lines of
                            Some j \<Rightarrow> st1\<lparr> cur_end_line_number := Some (j - 1) \<rparr>
                          | None \<Rightarrow> st1);
                   st3 = (case first_method_line_number st2 of
                            None \<Rightarrow> st2\<lparr> first_method_line_number := Some start \<rparr>
                          | Some f \<Rightarrow>
                              if start < f then st2\<lparr> first_method_line_number := Some start \<rparr>
                              else st2)
               in store_method lines stripped_line start method_suffixes st3)
            else Inr st1))"

fun scan_lines ::
  "string list \<Rightarrow> (nat \<times> string) list \<Rightarrow> scan_state \<Rightarrow> py_error + scan_state" where
  "scan_lines lines [] st = Inr st"
| "scan_lines lines ((i, line) # rest) st =
     (case scan_line lines i line st of
        Inl err \<Rightarrow> Inl err
      | Inr st' \<Rightarrow> scan_lines lines rest st')"

text \<open>
  \<open>sorted(method_blocks.items(), key=lambda x: [".Get", ".Packed", ".Raw"].index(x[0]))\<close>:
  the keys of the dictionary are among the three suffixes, each at most once.
\<close>

definition sorted_methods :: "(string \<times> method_block) list \<Rightarrow> method_block list" where
  "sorted_methods blocks =
     List.map_filter (map_of blocks) [''.Get'', ''.Packed'', ''.Raw'']"

text \<open>
  \<open>sorted(method_blocks.items(), reverse=True)\<close> compares the items by their keys, the
  suffix strings: \<open>.Raw\<close>, then \<open>.Packed\<close>, then \<open>.Get\<close>.
\<close>

definition reverse_sorted_methods :: "(string \<times> method_block) list \<Rightarrow> method_block list" where
  "reverse_sorted_methods blocks =
     List.map_filter (map_of blocks) [''.Raw'', ''.Packed'', ''.Get'']"

text \<open>
  Pasting the blocks: each block is inserted as one list element at \<open>type_end_line + 1\<close>,
  and \<open>type_end_line\<close> then grows by the number of lines of the block.
\<close>

fun paste_blocks :: "string list \<Rightarrow> nat \<Rightarrow> method_block list \<Rightarrow> string list" where
  "paste_blocks lines te [] = lines"
| "paste_blocks lines te (method_info # rest) =
     paste_blocks (list_insert lines (int te + 1) (block_content method_info))
       (te + length (split_char newline (block_content method_info))) rest"

fun delete_blocks :: "string list \<Rightarrow> method_block list \<Rightarrow> string list" where
  "delete_blocks lines [] = lines"
| "delete_blocks lines (method_info # rest) =
     delete_blocks
       (del_slice lines (start_line_number method_info) (end_line_number method_info + 1)) rest"

definition find_method_blocks_and_relocate :: "string \<Rightarrow> py_error + string" where
  "find_method_blocks_and_relocate file_content =
     (let lines = split_char newline file_content in
      case scan_lines lines (enumerate 0 lines) initial_scan_state of
        Inl err \<Rightarrow> Inl err
      | Inr st \<Rightarrow>
          (let lines1 =
                 (if type_definition_found st then
                    list_insert lines (int (type_end_line st))
                      (''## '' @ type_name st @ '' Execution Methods'')
                  else lines);
               lines2 = paste_blocks lines1 (type_end_line st) (sorted_methods (method_blocks st));
               lines3 = delete_blocks lines2 (reverse_sorted_methods (method_blocks st));
               lines4 =
                 (case first_method_line_number st of
                    Some f \<Rightarrow>
                      if type_definition_found st then
                        list_insert lines3 (int f - 1)
                          (''## '' @ type_name st @ '' Setter Methods'')
                      else lines3
                  | None \<Rightarrow> lines3)
           in Inr (join_char newline lines4)))"

section \<open>Combiner: \<open>combine_files_into_mdx\<close>\<close>

record url_info =
  title :: string
  sidebar_position :: int

text \<open>
  The dictionary \<open>URL_TO_INFO\<close>, in insertion order. The function reads it as a global;
  the model passes the table as an argument, and this is the table the script ships. A
  table is an association list whose keys are pairwise different, as those of a
  dictionary are.
\<close>

type_synonym url_table = "(string \<times> url_info) list"

definition URL_TO_INFO :: url_table where
  "URL_TO_INFO =
     [(''https://www.marketdata.app/docs/api/markets/status'', \<lparr>title = ''Status'', sidebar_position = 1\<rparr>),
      (''https://www.marketdata.app/docs/api/indices/candles'', \<lparr>title = ''Candles'', sidebar_position = 1\<rparr>),
      (''https://www.marketdata.app/docs/api/indices/quotes'', \<lparr>title = ''Quotes'', sidebar_position = 2\<rparr>),
      (''https://www.marketdata.app/docs/api/stocks/candles'', \<lparr>title = ''Candles'', sidebar_position = 1\<rparr>),
      (''https://www.marketdata.app/docs/api/stocks/bulkcandles'', \<lparr>title = ''Bulk Candles'', sidebar_position = 2\<rparr>),
      (''https://www.marketdata.app/docs/api/stocks/quotes'', \<lparr>title = ''Quotes'', sidebar_position = 3\<rparr>),
      (''https://www.marketdata.app/docs/api/stocks/bulkquotes'', \<lparr>title = ''Bulk Quotes'', sidebar_position = 4\<rparr>),
      (''https://www.marketdata.app/docs/api/stocks/earnings'', \<lparr>title = ''Earnings'', sidebar_position = 5\<rparr>),
      (''https://www.marketdata.app/docs/api/stocks/news'', \<lparr>title = ''News'', sidebar_position = 6\<rparr>),
      (''https://www.marketdata.app/docs/api/options/expirations'', \<lparr>title = ''Expirations'', sidebar_position = 1\<rparr>),
      (''https://www.marketdata.app/docs/api/options/lookup'', \<lparr>title = ''Lookup'', sidebar_position = 2\<rparr>),
      (''https://www.marketdata.app/docs/api/options/strikes'', \<lparr>title = ''Strikes'', sidebar_position = 3\<rparr>),
      (''https://www.marketdata.app/docs/api/options/chain'', \<lparr>title = ''Option Chain'', sidebar_position = 4\<rparr>),
      (''https://www.marketdata.app/docs/api/options/quotes'', \<lparr>title = ''Quotes'', sidebar_position = 5\<rparr>),
      (''https://www.marketdata.app/docs/sdk/go/client'', \<lparr>title = ''Client'', sidebar_position = 3\<rparr>)]"

text \<open>
  The pattern \<open>https?://[^\s)>]+\<close>: the scheme, then the longest non-empty run of
  characters that are neither whitespace nor \<open>)\<close> nor \<open>>\<close>. \<open>findall\<close> collects the
  whole match.
\<close>

definition url_char :: "char \<Rightarrow> bool" where
  "url_char c = (\<not> is_space c \<and> c \<noteq> CHR '')'' \<and> c \<noteq> CHR ''>'')"

definition url_pattern :: "string \<Rightarrow> (nat \<times> string) option" where
  "url_pattern s =
     (let scheme =
            (if prefix ''https://'' s then Some 8
             else if prefix ''http://'' s then Some 7
             else None)
      in case scheme of
           None \<Rightarrow> None
         | Some k \<Rightarrow>
             (let run = takeWhile url_char (drop k s) in
              if run = [] then None
              else Some (k + length run, take (k + length run) s)))"

text \<open>\<open>s.split(sep)\<close> for a non-empty separator string.\<close>

function split_str :: "string \<Rightarrow> string \<Rightarrow> string list" where
  "split_str sep [] = [[]]"
| "split_str sep (c # cs) =
     (if sep \<noteq> [] \<and> prefix sep (c # cs) then
        [] # split_str sep (drop (length sep) (c # cs))
      else
        (case split_str sep cs of
           [] \<Rightarrow> [[c]]
         | p # ps \<Rightarrow> (c # p) # ps))"
  by pat_completeness auto
termination
  by (relation "measure (\<lambda>(sep, s). length s)") (auto simp: prefix_def)

text \<open>\<open>s.replace(old, new, 1)\<close>: only the first occurrence is replaced.\<close>

fun replace_first :: "string \<Rightarrow> string \<Rightarrow> string \<Rightarrow> string" where
  "replace_first old new [] = (if old = [] then new else [])"
| "replace_first old new (c # cs) =
     (if prefix old (c # cs) then new @ drop (length old) (c # cs)
      else c # replace_first old new cs)"

text \<open>\<open>str(n)\<close> for an integer, as an f-string formats it.\<close>

fun str_nat :: "nat \<Rightarrow> string" where
  "str_nat n =
     (if n < 10 then [char_of (48 + n)]
      else str_nat (n div 10) @ [char_of (48 + n mod 10)])"

definition str_int :: "int \<Rightarrow> string" where
  "str_int i = (if i < 0 then ''-'' @ str_nat (nat (- i)) else str_nat (nat i))"

definition header_text :: "url_info \<Rightarrow> string" where
  "header_text info =
     ''---\<newline>title: '' @ title info @ ''\<newline>sidebar_position: '' @
     str_int (sidebar_position info) @ ''\<newline>---\<newline>\<newline>''"

definition import_statements :: string where
  "import_statements =
     ''import Tabs from \"@theme/Tabs\";\<newline>import TabItem from \"@theme/TabItem\";\<newline>\<newline>''"

text \<open>
  What a call of \<open>combine_files_into_mdx\<close> ends in: it returns the pair
  \<open>(combined_content, output_filename)\<close> (each possibly \<open>None\<close>), or it calls
  \<open>sys.exit\<close> after printing the diagnostic (kept here as the list of URLs found and the
  list of expected URLs not found), or it raises.
\<close>

datatype combine_result =
    Returned "string option" "string option"
  | Exited nat "string list" "string list"
  | Raised py_error

text \<open>
  Reading the files: the model is given, for each path, the text read or \<open>None\<close> when
  opening or reading raised; the first failure makes the function return \<open>(None, None)\<close>.
\<close>

fun read_all :: "string option list \<Rightarrow> string \<Rightarrow> string option" where
  "read_all [] combined_content = Some combined_content"
| "read_all (None # rest) combined_content = None"
| "read_all (Some text # rest) combined_content =
     read_all rest (combined_content @ text @ ''\<newline>\<newline>'')"

text \<open>
  The loop over \<open>urls_to_process\<close>. The header is prepended before the URL is tested
  for \<open>/sdk/\<close> and \<open>/api/\<close>; \<open>output_filename\<close> stays unbound (\<open>None\<close>) while no URL
  passes the test.
\<close>

fun url_loop :: "url_table \<Rightarrow> string list \<Rightarrow> string \<Rightarrow> string \<times> string option" where
  "url_loop table [] combined_content = (combined_content, None)"
| "url_loop table (url # rest) combined_content =
     (case map_of table url of
        None \<Rightarrow> url_loop table rest combined_content
      | Some info \<Rightarrow>
          (let combined_content = header_text info @ combined_content in
           if contains url ''/sdk/'' then
             (combined_content, Some (''go'' @ ''/'' @ last (split_str ''/go/'' url) @ ''.mdx''))
           else if contains url ''/api/'' then
             (combined_content, Some (''go'' @ ''/'' @ last (split_str ''/api/'' url) @ ''.mdx''))
           else url_loop table rest combined_content))"

definition add_imports :: "string \<Rightarrow> string" where
  "add_imports combined_content =
     (if contains combined_content ''<Tabs>'' then
        replace_first ''---\<newline>\<newline>'' (''---\<newline>\<newline>'' @ import_statements) combined_content
      else combined_content)"

definition urls_found :: "string \<Rightarrow> string list" where
  "urls_found combined_content = re_findall url_pattern 0 combined_content"

definition urls_to_process :: "url_table \<Rightarrow> string \<Rightarrow> string list" where
  "urls_to_process table combined_content =
     filter (\<lambda>url. map_of table url \<noteq> None) (urls_found combined_content)"

definition combine_files_into_mdx :: "url_table \<Rightarrow> string option list \<Rightarrow> combine_result" where
  "combine_files_into_mdx table files =
     (case read_all files [] of
        None \<Rightarrow> Returned None None
      | Some combined_content \<Rightarrow>
          (if urls_to_process table combined_content = [] then
             Exited 1 (urls_found combined_content)
               (filter (\<lambda>url. url \<notin> set (urls_found combined_content)) (map fst table))
           else
             (case url_loop table (urls_to_process table combined_content) combined_content of
                (combined_content, None) \<Rightarrow> Raised UnboundLocalError
              | (combined_content, Some output_filename) \<Rightarrow>
                  Returned (Some (add_imports combined_content)) (Some output_filename))))"

text \<open>
  The end of the script: the combined file is written only when the call returned two
  values that are not \<open>None\<close>, and \<open>save_combined_content\<close> writes only when neither is
  empty. \<open>sys.exit\<close> and an uncaught exception end the process before that point. Writing
  is taken to succeed.
\<close>

datatype run_outcome =
    Process_Exit nat "string list" "string list"
  | Uncaught py_error
  | Completed "(string \<times> string) list"

definition save_combined_content :: "string \<Rightarrow> string \<Rightarrow> (string \<times> string) list" where
  "save_combined_content combined_content output_filename =
     (if combined_content = [] \<or> output_filename = [] then []
      else [(output_filename, combined_content)])"

definition combine_step :: "url_table \<Rightarrow> string option list \<Rightarrow> run_outcome" where
  "combine_step table files =
     (case combine_files_into_mdx table files of
        Exited code found missing \<Rightarrow> Process_Exit code found missing
      | Raised err \<Rightarrow> Uncaught err
      | Returned (Some combined_content) (Some output_filename) \<Rightarrow>
          Completed (save_combined_content combined_content output_filename)
      | Returned _ _ \<Rightarrow> Completed [])"

text \<open>
  The combined output files the combine step has written when the run ends. (The
  rewriting of each input file in place, which precedes the combine step, is a separate
  step of the script.)
\<close>

fun files_written :: "run_outcome \<Rightarrow> (string \<times> string) list" where
  "files_written (Completed ws) = ws"
| "files_written (Process_Exit code found missing) = []"
| "files_written (Uncaught err) = []"

text \<open>
  The buffer the reading loop builds from the texts of the files, and the front-matter
  header the loop prepends for a URL of the table.
\<close>

definition combined_text :: "string list \<Rightarrow> string" where
  "combined_text texts = concat (map (\<lambda>text. text @ ''\<newline>\<newline>'') texts)"

definition header_of :: "url_table \<Rightarrow> string \<Rightarrow> string" where
  "header_of table url = (case map_of table url of Some info \<Rightarrow> header_text info | None \<Rightarrow> [])"

section \<open>Auxiliary notions for the proofs\<close>

text \<open>
  The sections collected by the scanning loops form an ascending chain of disjoint
  line ranges between two bounds.
\<close>

fun chain :: "nat \<Rightarrow> line_range list \<Rightarrow> nat \<Rightarrow> bool" where
  "chain lo [] hi = (lo \<le> hi)"
| "chain lo ((a, b) # r) hi = (lo \<le> a \<and> a \<le> b \<and> chain b r hi)"

definition loop_inv :: "nat \<Rightarrow> line_range list \<Rightarrow> nat option \<Rightarrow> bool" where
  "loop_inv k secs st = (case st of None \<Rightarrow> chain 0 secs k | Some a \<Rightarrow> chain 0 secs a \<and> a < k)"

text \<open>
  One pass of the loop of \<open>move_to_top\<close> as a function of the state, and the invariant
  that relates the state after \<open>k\<close> lines to the matched lines: the lines below \<open>k\<close>
  that lie in a collected section or behind the open start index are the matched ones.
\<close>

definition top_step ::
  "string \<Rightarrow> string option \<Rightarrow> nat \<Rightarrow> string \<Rightarrow> line_range list \<times> nat option
     \<Rightarrow> line_range list \<times> nat option" where
  "top_step sp ep i line state =
     (case state of (secs, st) \<Rightarrow>
        if startswith line sp then
          (case st of Some a \<Rightarrow> (secs @ [(a, i)], Some i) | None \<Rightarrow> (secs, Some i))
        else if closes_section sp ep line then
          (case st of Some a \<Rightarrow> (secs @ [(a, i)], None) | None \<Rightarrow> (secs, None))
        else (secs, st))"

definition covered :: "line_range list \<Rightarrow> nat option \<Rightarrow> nat \<Rightarrow> bool" where
  "covered secs st i = (in_sections secs i \<or> (case st of Some a \<Rightarrow> a \<le> i | None \<Rightarrow> False))"

definition match_inv ::
  "string \<Rightarrow> string option \<Rightarrow> string list \<Rightarrow> nat \<Rightarrow> line_range list \<Rightarrow> nat option \<Rightarrow> bool" where
  "match_inv sp ep lines k secs st =
     (loop_inv k secs st \<and>
      list_all (\<lambda>i. covered secs st i = matched_line sp ep lines i) [0..<k] \<and>
      (case st of Some a \<Rightarrow> True | None \<Rightarrow> k = 0 \<or> \<not> matched_line sp ep lines (k - 1)))"

section \<open>Splitting and joining lines\<close>

lemma split_char_nonempty: "split_char c s \<noteq> []"
  by (induction s) (auto split: list.splits)

lemma join_split_char: "join_char c (split_char c s) = s"
proof (induction s)
  case Nil show ?case by simp
next
  case (Cons x s)
  obtain l ls where e: "split_char c s = l # ls"
    using split_char_nonempty[of c s] by (cases "split_char c s") auto
  with Cons show ?case by (cases ls) auto
qed

lemma split_char_no_sep: "l \<in> set (split_char c s) \<Longrightarrow> c \<notin> set l"
  by (induction s arbitrary: l) (auto split: if_splits list.splits)

lemma split_char_plain: "c \<notin> set l \<Longrightarrow> split_char c l = [l]"
  by (induction l) auto

lemma split_char_append:
  "c \<notin> set l \<Longrightarrow> split_char c (l @ c # s) = l # split_char c s"
  by (induction l) auto

lemma split_join_char:
  "ls \<noteq> [] \<Longrightarrow> \<forall>l\<in>set ls. c \<notin> set l \<Longrightarrow> split_char c (join_char c ls) = ls"
proof (induction c ls rule: join_char.induct)
  case (1 sep) then show ?case by simp
next
  case (2 sep l) then show ?case by (simp add: split_char_plain)
next
  case (3 sep l v va)
  then show ?case by (simp add: split_char_append)
qed

section \<open>Properties of the Section Relocator\<close>

lemma chain_le: "chain lo secs hi \<Longrightarrow> lo \<le> hi"
  by (induction lo secs hi rule: chain.induct) auto

lemma chain_mono: "chain lo secs hi \<Longrightarrow> hi \<le> hi' \<Longrightarrow> chain lo secs hi'"
  by (induction lo secs hi rule: chain.induct) auto

lemma chain_snoc:
  "chain lo secs a \<Longrightarrow> a \<le> b \<Longrightarrow> b \<le> hi \<Longrightarrow> chain lo (secs @ [(a, b)]) hi"
  by (induction lo secs a rule: chain.induct) auto

lemma top_loop_chain:
  "loop_inv k secs st \<Longrightarrow>
   chain 0 (close_last (k + length ls) (top_loop sp ep (enumerate k ls) secs st)) (k + length ls)"
proof (induction ls arbitrary: k secs st)
  case Nil
  then show ?case
    by (auto simp: loop_inv_def close_last_def split: option.splits intro: chain_snoc)
next
  case (Cons l ls)
  have step: "\<And>secs' st'. loop_inv (Suc k) secs' st' \<Longrightarrow>
     chain 0 (close_last (k + length (l # ls)) (top_loop sp ep (enumerate (Suc k) ls) secs' st')) (k + length (l # ls))"
    using Cons.IH[of "Suc k"] by simp
  have i1: "\<And>a. st = Some a \<Longrightarrow> loop_inv (Suc k) (secs @ [(a, k)]) (Some k)"
    using Cons.prems by (auto simp: loop_inv_def intro: chain_snoc)
  have i2: "st = None \<Longrightarrow> loop_inv (Suc k) secs (Some k)"
    using Cons.prems by (auto simp: loop_inv_def)
  have i3: "loop_inv (Suc k) secs st"
    using Cons.prems by (auto simp: loop_inv_def intro: chain_mono split: option.splits)
  have i4: "\<And>a. st = Some a \<Longrightarrow> loop_inv (Suc k) (secs @ [(a, k)]) None"
    using Cons.prems by (auto simp: loop_inv_def intro: chain_snoc)
  show ?case
    using step i1 i2 i3 i4 by (auto split: option.splits)
qed

lemma in_sections_Cons:
  "in_sections ((a, b) # r) i = ((a \<le> i \<and> i < b) \<or> in_sections r i)"
  by (simp add: in_sections_def)

lemma chain_not_in_below: "chain lo secs hi \<Longrightarrow> i < lo \<Longrightarrow> \<not> in_sections secs i"
  by (induction lo secs hi rule: chain.induct) (auto simp: in_sections_def)

lemma upt_split: "i \<le> j \<Longrightarrow> j \<le> k \<Longrightarrow> [i..<k] = [i..<j] @ [j..<k]"
  using upt_add_eq_append[of i j "k - j"] by simp

lemma chain_filter:
  "chain lo secs n \<Longrightarrow>
   filter (in_sections secs) [lo..<n] = concat (map (\<lambda>(a, b). [a..<b]) secs)"
proof (induction lo secs n rule: chain.induct)
  case (1 lo hi)
  then show ?case by (simp add: in_sections_def)
next
  case (2 lo a b r hi)
  then have c: "chain b r hi" and le: "lo \<le> a" "a \<le> b" by auto
  have bh: "b \<le> hi" using c by (rule chain_le)
  have sp: "[lo..<hi] = [lo..<a] @ [a..<b] @ [b..<hi]"
    using le bh upt_split[of lo a hi] upt_split[of a b hi] by simp
  have f1: "filter (in_sections ((a, b) # r)) [lo..<a] = []"
  proof -
    have "\<And>x. x < a \<Longrightarrow> \<not> in_sections r x"
      using chain_not_in_below[OF c] le by (meson less_le_trans)
    then show ?thesis by (auto simp: filter_empty_conv in_sections_Cons)
  qed
  have f2: "filter (in_sections ((a, b) # r)) [a..<b] = [a..<b]"
    by (auto simp: filter_id_conv in_sections_Cons)
  have f3: "filter (in_sections ((a, b) # r)) [b..<hi] = filter (in_sections r) [b..<hi]"
    by (rule filter_cong) (auto simp: in_sections_Cons)
  show ?case using 2 c f1 f2 f3 by (simp add: sp)
qed

lemma chain_bounds: "chain lo secs hi \<Longrightarrow> (a, b) \<in> set secs \<Longrightarrow> a \<le> b \<and> b \<le> hi"
  by (induction lo secs hi rule: chain.induct) (auto dest: chain_le)

lemma slice_nth: "b \<le> length xs \<Longrightarrow> slice xs a b = map (nth xs) [a..<b]"
  unfolding slice_def
proof -
  assume b: "b \<le> length xs"
  have "take (b - a) (drop a xs) = take (b - a) (drop a (map (nth xs) [0..<length xs]))"
    by (simp add: map_nth)
  also have "\<dots> = map (nth xs) (take (b - a) (drop a [0..<length xs]))"
    by (simp add: drop_map take_map)
  also have "take (b - a) (drop a [0..<length xs]) = [a..<b]"
  proof (cases "a \<le> b")
    case True
    then show ?thesis using b take_upt[of a "b - a" "length xs"] by (simp add: drop_upt)
  next
    case False
    then show ?thesis by simp
  qed
  finally show "take (b - a) (drop a xs) = map (nth xs) [a..<b]" .
qed

lemma enumerate_nth_map: "enumerate 0 xs = map (\<lambda>i. (i, xs ! i)) [0..<length xs]"
  by (rule nth_equalityI) (simp_all add: nth_enumerate_eq)

lemma rest_of_content_nth:
  "rest_of_content lines secs =
     map (nth lines) (filter (\<lambda>i. \<not> in_sections secs i) [0..<length lines])"
  unfolding rest_of_content_def enumerate_nth_map
  by (simp add: filter_map comp_def)

lemma section_contents_nth:
  assumes "chain 0 secs (length lines)"
  shows "concat (section_contents lines secs) =
     map (nth lines) (filter (in_sections secs) [0..<length lines])"
proof -
  have "\<And>r. r \<in> set secs \<Longrightarrow>
      (case r of (s, e) \<Rightarrow> slice lines s e) = (case r of (s, e) \<Rightarrow> map (nth lines) [s..<e])"
    using chain_bounds[OF assms] by (auto simp: slice_nth)
  then have a: "map (\<lambda>(s, e). slice lines s e) secs = map (\<lambda>(s, e). map (nth lines) [s..<e]) secs"
    by (rule map_cong[OF refl])
  have b: "concat (map (\<lambda>(s, e). map (nth lines) [s..<e]) secs) =
      map (nth lines) (concat (map (\<lambda>(s, e). [s..<e]) secs))"
    by (induction secs) auto
  have "concat (section_contents lines secs) =
      map (nth lines) (concat (map (\<lambda>(s, e). [s..<e]) secs))"
    unfolding section_contents_def a b ..
  then show ?thesis using chain_filter[OF assms] by simp
qed

lemma top_sections_chain: "chain 0 (top_sections sp ep lines) (length lines)"
  using top_loop_chain[of 0 "[]" None lines sp ep]
  by (simp add: top_sections_def loop_inv_def)

lemma partition_mset:
  "mset (map f (filter P xs) @ map f (filter (\<lambda>i. \<not> P i) xs)) = mset (map f xs)"
  by (induction xs) auto

lemma partition_length:
  "length (filter P xs) + length (filter (\<lambda>i. \<not> P i) xs) = length xs"
  by (induction xs) auto

lemma stable_lines:
  assumes "lines \<noteq> []" "\<forall>l\<in>set lines. newline \<notin> set l" "mset out = mset lines"
  shows "split_char newline (join_char newline out) = out"
proof -
  have "set out = set lines" using assms(3) by (metis set_mset_mset)
  moreover have "out \<noteq> []" using assms(1,3) by auto
  ultimately show ?thesis using assms(2) by (simp add: split_join_char)
qed

lemma move_to_top_lines:
  "mset (split_char newline (move_to_top doc sp ep)) = mset (split_char newline doc) \<and>
   split_char newline (move_to_top doc sp ep) =
     (let lines = split_char newline doc;
          sections = top_sections sp ep lines
      in map (nth lines) (filter (in_sections sections) [0..<length lines]) @
         map (nth lines) (filter (\<lambda>i. \<not> in_sections sections i) [0..<length lines]))"
proof -
  define lines where "lines = split_char newline doc"
  define secs where "secs = top_sections sp ep lines"
  define out where "out = map (nth lines) (filter (in_sections secs) [0..<length lines]) @
         map (nth lines) (filter (\<lambda>i. \<not> in_sections secs i) [0..<length lines])"
  have ch: "chain 0 secs (length lines)" unfolding secs_def by (rule top_sections_chain)
  have m: "move_to_top doc sp ep = join_char newline out"
    unfolding move_to_top_def Let_def out_def lines_def[symmetric] secs_def[symmetric]
    using section_contents_nth[OF ch] rest_of_content_nth[of lines secs] by simp
  have ms: "mset out = mset lines"
    unfolding out_def by (simp only: partition_mset map_nth)
  have ne: "lines \<noteq> []" unfolding lines_def by (rule split_char_nonempty)
  have nn: "\<forall>l\<in>set lines. newline \<notin> set l"
    unfolding lines_def using split_char_no_sep by blast
  have sj: "split_char newline (move_to_top doc sp ep) = out"
    unfolding m using stable_lines[OF ne nn ms] .
  show ?thesis
    unfolding sj using ms by (simp add: Let_def out_def lines_def secs_def)
qed

lemma matched_line_iff:
  "matched_line sp ep lines i \<longleftrightarrow>
     (\<exists>j\<le>i. startswith (lines ! j) sp \<and> (\<forall>k. j < k \<and> k \<le> i \<longrightarrow> \<not> closes_section sp ep (lines ! k)))"
  unfolding matched_line_def list_ex_iff list_all_iff
  by (auto simp del: upt_Suc simp: less_Suc_eq_le Suc_le_eq)

lemma matched_line_start:
  "startswith (lines ! i) sp \<Longrightarrow> matched_line sp ep lines i"
  unfolding matched_line_iff by (rule exI[of _ i]) auto

lemma matched_line_close:
  assumes "closes_section sp ep (lines ! i)"
  shows "\<not> matched_line sp ep lines i"
proof
  assume "matched_line sp ep lines i"
  then obtain j where j: "j \<le> i" "startswith (lines ! j) sp"
    "\<forall>k. j < k \<and> k \<le> i \<longrightarrow> \<not> closes_section sp ep (lines ! k)"
    unfolding matched_line_iff by blast
  have "j \<noteq> i" using assms j(2) by (auto simp: closes_section_def)
  then have "j < i" using j(1) by simp
  then show False using j(3) assms by blast
qed

lemma matched_line_other:
  assumes "\<not> startswith (lines ! i) sp" "\<not> closes_section sp ep (lines ! i)"
  shows "matched_line sp ep lines i \<longleftrightarrow> (0 < i \<and> matched_line sp ep lines (i - 1))"
proof
  assume "matched_line sp ep lines i"
  then obtain j where j: "j \<le> i" "startswith (lines ! j) sp"
    "\<forall>k. j < k \<and> k \<le> i \<longrightarrow> \<not> closes_section sp ep (lines ! k)"
    unfolding matched_line_iff by blast
  have "j \<noteq> i" using assms(1) j(2) by auto
  then have ji: "j < i" using j(1) by simp
  then have "j \<le> i - 1" by simp
  moreover have "\<forall>k. j < k \<and> k \<le> i - 1 \<longrightarrow> \<not> closes_section sp ep (lines ! k)"
    using j(3) by auto
  ultimately have "matched_line sp ep lines (i - 1)"
    unfolding matched_line_iff using j(2) by blast
  then show "0 < i \<and> matched_line sp ep lines (i - 1)" using ji by simp
next
  assume a: "0 < i \<and> matched_line sp ep lines (i - 1)"
  then obtain j where j: "j \<le> i - 1" "startswith (lines ! j) sp"
    "\<forall>k. j < k \<and> k \<le> i - 1 \<longrightarrow> \<not> closes_section sp ep (lines ! k)"
    unfolding matched_line_iff by blast
  have "\<forall>k. j < k \<and> k \<le> i \<longrightarrow> \<not> closes_section sp ep (lines ! k)"
  proof (intro allI impI)
    fix k assume k: "j < k \<and> k \<le> i"
    show "\<not> closes_section sp ep (lines ! k)"
    proof (cases "k = i")
      case True then show ?thesis using assms(2) by simp
    next
      case False then show ?thesis using j(3) k by auto
    qed
  qed
  moreover have "j \<le> i" using j(1) by simp
  ultimately show "matched_line sp ep lines i"
    unfolding matched_line_iff using j(2) by blast
qed

lemma top_loop_step:
  "top_loop sp ep ((i, line) # rest) secs st =
     (case top_step sp ep i line (secs, st) of (secs', st') \<Rightarrow> top_loop sp ep rest secs' st')"
  by (auto simp: top_step_def closes_section_def split: option.splits)

lemma in_sections_snoc:
  "in_sections (secs @ [(a, b)]) i = (in_sections secs i \<or> (a \<le> i \<and> i < b))"
  by (auto simp: in_sections_def)

lemma chain_not_in_above: "chain lo secs hi \<Longrightarrow> hi \<le> i \<Longrightarrow> \<not> in_sections secs i"
proof (induction lo secs hi rule: chain.induct)
  case (1 lo hi)
  then show ?case by (simp add: in_sections_def)
next
  case (2 lo a b r hi)
  then have c: "chain b r hi" by simp
  have "b \<le> hi" using c by (rule chain_le)
  then show ?case using 2 by (auto simp: in_sections_Cons)
qed

lemma top_step_inv:
  assumes inv: "match_inv sp ep lines k secs st"
    and step: "top_step sp ep k (lines ! k) (secs, st) = (secs', st')"
  shows "match_inv sp ep lines (Suc k) secs' st'"
proof -
  have li: "loop_inv k secs st"
    and cov: "\<And>i. i < k \<Longrightarrow> covered secs st i = matched_line sp ep lines i"
    and cl: "st = None \<Longrightarrow> k = 0 \<or> \<not> matched_line sp ep lines (k - 1)"
    using inv by (auto simp: match_inv_def list_all_iff)
  show ?thesis
  proof (cases "startswith (lines ! k) sp")
    case True
    have mk: "matched_line sp ep lines k" using True by (rule matched_line_start)
    show ?thesis
    proof (cases st)
      case None
      then have e: "secs' = secs" "st' = Some k" using step True by (auto simp: top_step_def)
      have ch: "chain 0 secs k" using li None by (simp add: loop_inv_def)
      have "\<And>i. i < Suc k \<Longrightarrow> covered secs (Some k) i = matched_line sp ep lines i"
      proof -
        fix i assume "i < Suc k"
        then consider "i < k" | "i = k" by linarith
        then show "covered secs (Some k) i = matched_line sp ep lines i"
        proof cases
          case 1
          then show ?thesis using cov[OF 1] None by (simp add: covered_def)
        next
          case 2
          then show ?thesis using mk by (simp add: covered_def)
        qed
      qed
      then show ?thesis using ch unfolding e match_inv_def list_all_iff
        by (auto simp: loop_inv_def)
    next
      case (Some a)
      then have e: "secs' = secs @ [(a, k)]" "st' = Some k"
        using step True by (auto simp: top_step_def)
      have ch: "chain 0 secs a" "a < k" using li Some by (auto simp: loop_inv_def)
      have ch': "chain 0 (secs @ [(a, k)]) k" using ch by (auto intro: chain_snoc)
      have "\<And>i. i < Suc k \<Longrightarrow> covered (secs @ [(a, k)]) (Some k) i = matched_line sp ep lines i"
      proof -
        fix i assume "i < Suc k"
        then consider "i < k" | "i = k" by linarith
        then show "covered (secs @ [(a, k)]) (Some k) i = matched_line sp ep lines i"
        proof cases
          case 1
          then show ?thesis using cov[OF 1] Some by (auto simp: covered_def in_sections_snoc)
        next
          case 2
          then show ?thesis using mk by (simp add: covered_def)
        qed
      qed
      then show ?thesis using ch' unfolding e match_inv_def list_all_iff
        by (auto simp: loop_inv_def)
    qed
  next
    case False
    show ?thesis
    proof (cases "closes_section sp ep (lines ! k)")
      case True
      have nk: "\<not> matched_line sp ep lines k" using True by (rule matched_line_close)
      show ?thesis
      proof (cases st)
        case None
        then have e: "secs' = secs" "st' = None"
          using step False True by (auto simp: top_step_def)
        have ch: "chain 0 secs k" using li None by (simp add: loop_inv_def)
        have nin: "\<not> in_sections secs k" using chain_not_in_above[OF ch] by simp
        have "\<And>i. i < Suc k \<Longrightarrow> covered secs None i = matched_line sp ep lines i"
        proof -
          fix i assume "i < Suc k"
          then consider "i < k" | "i = k" by linarith
          then show "covered secs None i = matched_line sp ep lines i"
          proof cases
            case 1
            then show ?thesis using cov[OF 1] None by simp
          next
            case 2
            then show ?thesis using nk nin by (simp add: covered_def)
          qed
        qed
        then show ?thesis using ch nk unfolding e match_inv_def list_all_iff
          by (auto simp: loop_inv_def intro: chain_mono)
      next
        case (Some a)
        then have e: "secs' = secs @ [(a, k)]" "st' = None"
          using step False True by (auto simp: top_step_def)
        have ch: "chain 0 secs a" "a < k" using li Some by (auto simp: loop_inv_def)
        have ch': "chain 0 (secs @ [(a, k)]) k" using ch by (auto intro: chain_snoc)
        have nin: "\<not> in_sections (secs @ [(a, k)]) k" using chain_not_in_above[OF ch'] by simp
        have "\<And>i. i < Suc k \<Longrightarrow> covered (secs @ [(a, k)]) None i = matched_line sp ep lines i"
        proof -
          fix i assume "i < Suc k"
          then consider "i < k" | "i = k" by linarith
          then show "covered (secs @ [(a, k)]) None i = matched_line sp ep lines i"
          proof cases
            case 1
            then show ?thesis using cov[OF 1] Some by (auto simp: covered_def in_sections_snoc)
          next
            case 2
            then show ?thesis using nk nin by (simp add: covered_def)
          qed
        qed
        then show ?thesis using ch' nk unfolding e match_inv_def list_all_iff
          by (auto simp: loop_inv_def intro: chain_mono)
      qed
    next
      case nc: False
      have e: "secs' = secs" "st' = st" using step False nc by (auto simp: top_step_def)
      have rec: "matched_line sp ep lines k \<longleftrightarrow> (0 < k \<and> matched_line sp ep lines (k - 1))"
        using matched_line_other[OF False nc] .
      show ?thesis
      proof (cases st)
        case None
        have ch: "chain 0 secs k" using li None by (simp add: loop_inv_def)
        have nin: "\<not> in_sections secs k" using chain_not_in_above[OF ch] by simp
        have nk: "\<not> matched_line sp ep lines k" using rec cl[OF None] by auto
        have "\<And>i. i < Suc k \<Longrightarrow> covered secs None i = matched_line sp ep lines i"
        proof -
          fix i assume "i < Suc k"
          then consider "i < k" | "i = k" by linarith
          then show "covered secs None i = matched_line sp ep lines i"
          proof cases
            case 1
            then show ?thesis using cov[OF 1] None by simp
          next
            case 2
            then show ?thesis using nk nin by (simp add: covered_def)
          qed
        qed
        then show ?thesis using ch nk None unfolding e match_inv_def list_all_iff
          by (auto simp: loop_inv_def intro: chain_mono)
      next
        case (Some a)
        have ch: "chain 0 secs a" "a < k" using li Some by (auto simp: loop_inv_def)
        have "a \<le> k - 1" using ch(2) by linarith
        then have "covered secs st (k - 1)" using Some by (simp add: covered_def)
        then have "matched_line sp ep lines (k - 1)" using cov[of "k - 1"] ch(2) by simp
        then have mk: "matched_line sp ep lines k" using rec ch(2) by simp
        have "\<And>i. i < Suc k \<Longrightarrow> covered secs (Some a) i = matched_line sp ep lines i"
        proof -
          fix i assume "i < Suc k"
          then consider "i < k" | "i = k" by linarith
          then show "covered secs (Some a) i = matched_line sp ep lines i"
          proof cases
            case 1
            then show ?thesis using cov[OF 1] Some by simp
          next
            case 2
            then show ?thesis using mk ch(2) by (simp add: covered_def)
          qed
        qed
        then show ?thesis using ch Some unfolding e match_inv_def list_all_iff
          by (auto simp: loop_inv_def)
      qed
    qed
  qed
qed

lemma top_loop_matched:
  assumes "match_inv sp ep lines k secs st" "k + length ls = length lines" "ls = drop k lines"
    and "i < length lines"
  shows "in_sections (close_last (length lines) (top_loop sp ep (enumerate k ls) secs st)) i =
           matched_line sp ep lines i"
  using assms(1-3)
proof (induction ls arbitrary: k secs st)
  case Nil
  then have k: "k = length lines" by simp
  have cov: "covered secs st i = matched_line sp ep lines i"
    using Nil(1) assms(4) k by (auto simp: match_inv_def list_all_iff)
  show ?case
  proof (cases st)
    case None
    then show ?thesis using cov by (simp add: close_last_def covered_def)
  next
    case (Some a)
    then show ?thesis using cov assms(4)
      by (auto simp: close_last_def covered_def in_sections_snoc)
  qed
next
  case (Cons l ls)
  have kl: "k < length lines" using Cons.prems(2) by simp
  have l: "l = lines ! k" using Cons.prems(3) kl
    by (metis Cons_nth_drop_Suc list.inject)
  have d: "ls = drop (Suc k) lines" using Cons.prems(3) kl
    by (metis Cons_nth_drop_Suc list.inject)
  obtain secs' st' where s: "top_step sp ep k (lines ! k) (secs, st) = (secs', st')"
    by (cases "top_step sp ep k (lines ! k) (secs, st)") auto
  have inv': "match_inv sp ep lines (Suc k) secs' st'"
    using top_step_inv[OF Cons.prems(1) s] .
  have "top_loop sp ep (enumerate k (l # ls)) secs st = top_loop sp ep (enumerate (Suc k) ls) secs' st'"
    using s l by (simp add: top_loop_step del: top_loop.simps)
  then show ?case using Cons.IH[OF inv' _ d] Cons.prems(2) by simp
qed

lemma top_sections_matched:
  "i < length lines \<Longrightarrow>
   in_sections (top_sections sp ep lines) i = matched_line sp ep lines i"
  unfolding top_sections_def
  by (rule top_loop_matched) (simp_all add: match_inv_def loop_inv_def)

text \<open>
  Claim C3. The lines of \<open>move_to_top(doc, start_marker, end_marker)\<close> are a permutation of
  the lines of \<open>doc\<close>, none duplicated and none dropped: first the lines of the matched
  sections in file order (a line is matched when a line at or before it starts with the
  start marker and no line between that one and it closes the section), then all other
  lines in their original order.
\<close>

theorem move_to_top_permutation:
  "mset (split_char newline (move_to_top doc sp ep)) = mset (split_char newline doc) \<and>
   split_char newline (move_to_top doc sp ep) =
     (let lines = split_char newline doc
      in map (nth lines) (filter (matched_line sp ep lines) [0..<length lines]) @
         map (nth lines) (filter (\<lambda>i. \<not> matched_line sp ep lines i) [0..<length lines]))"
proof -
  define lines where "lines = split_char newline doc"
  have a: "filter (in_sections (top_sections sp ep lines)) [0..<length lines] =
           filter (matched_line sp ep lines) [0..<length lines]"
    by (rule filter_cong) (simp_all add: top_sections_matched)
  have b: "filter (\<lambda>i. \<not> in_sections (top_sections sp ep lines) i) [0..<length lines] =
           filter (\<lambda>i. \<not> matched_line sp ep lines i) [0..<length lines]"
    by (rule filter_cong) (simp_all add: top_sections_matched)
  have c: "mset (split_char newline (move_to_top doc sp ep)) = mset lines \<and>
     split_char newline (move_to_top doc sp ep) =
       map (nth lines) (filter (in_sections (top_sections sp ep lines)) [0..<length lines]) @
       map (nth lines) (filter (\<lambda>i. \<not> in_sections (top_sections sp ep lines) i) [0..<length lines])"
    using move_to_top_lines[of doc sp ep] unfolding Let_def lines_def by blast
  show ?thesis
    unfolding Let_def lines_def[symmetric] using c unfolding a b by blast
qed

lemma move_to_top_example:
  "move_to_top (join_char newline [''a'', ''Xb'', ''c'', ''E'', ''d'', ''Xe'']) ''X'' (Some ''E'') =
     join_char newline [''Xb'', ''c'', ''Xe'', ''a'', ''E'', ''d'']"
  by code_simp


lemma top_loop_absent:
  "\<forall>l\<in>set ls. \<not> startswith l sp \<Longrightarrow> top_loop sp ep (enumerate k ls) secs None = (secs, None)"
  by (induction ls arbitrary: k) (auto split: option.splits)

lemma bottom_loop_absent:
  "\<forall>l\<in>set ls. \<not> startswith l sp \<Longrightarrow>
   bottom_loop sp (Some e) (enumerate k ls) secs None = Inr (secs, None)"
  by (induction ls arbitrary: k) (auto split: option.splits)

lemma rest_of_content_Nil: "rest_of_content lines [] = lines"
  by (simp add: rest_of_content_nth in_sections_def map_nth)

text \<open>
  Marker absence where it is a no-op: if no line of \<open>D\<close> starts with the start marker,
  then \<open>move_to_top\<close> returns \<open>D\<close> for every end marker, unset or not, and
  \<open>move_to_bottom\<close> returns \<open>D\<close> for every end marker that is a string.
\<close>

lemma marker_absent_noop:
  assumes "\<forall>l\<in>set (split_char newline D). \<not> startswith l start_marker"
  shows "move_to_top D start_marker end_marker = D \<and>
         move_to_bottom D start_marker (Some e) = Inr D"
  using assms
  by (simp add: move_to_top_def move_to_bottom_def top_sections_def top_loop_absent
      bottom_loop_absent close_last_def section_contents_def rest_of_content_Nil
      join_split_char)

lemma marker_absent_noop_example:
  "split_char newline ''intro\<newline>body'' = [''intro'', ''body''] \<and>
   \<not> startswith ''intro'' ''<a name=\"By'' \<and> \<not> startswith ''body'' ''<a name=\"By'' \<and>
   move_to_top ''intro\<newline>body'' ''<a name=\"By'' None = ''intro\<newline>body'' \<and>
   move_to_bottom ''intro\<newline>body'' ''<a name=\"By'' (Some ''<a'') = Inr ''intro\<newline>body''"
proof -
  have s: "split_char newline ''intro\<newline>body'' = [''intro'', ''body'']"
    by (simp add: newline_def)
  have n: "\<not> startswith ''intro'' ''<a name=\"By''" "\<not> startswith ''body'' ''<a name=\"By''"
    by (simp_all add: startswith_def)
  have h: "\<forall>l\<in>set (split_char newline ''intro\<newline>body''). \<not> startswith l ''<a name=\"By''"
    using s n by simp
  show ?thesis using s n marker_absent_noop[OF h, of None "''<a''"] by simp
qed

text \<open>
  Claim C7. Marker absence is not a no-op for \<open>move_to_bottom\<close> with the end marker
  unset: on the one-line document \<open>intro\<close>, which has no line starting with the start
  marker, \<open>move_to_top\<close> returns the document and \<open>move_to_bottom\<close> raises \<open>TypeError\<close>.
\<close>

theorem move_to_bottom_absent_marker_raises:
  "\<not> startswith ''intro'' ''<a name=\"By'' \<and>
   split_char newline ''intro'' = [''intro''] \<and>
   move_to_top ''intro'' ''<a name=\"By'' None = ''intro'' \<and>
   move_to_bottom ''intro'' ''<a name=\"By'' None = Inl TypeError"
  by (simp add: newline_def startswith_def move_to_top_def move_to_bottom_def
      top_sections_def close_last_def section_contents_def rest_of_content_def in_sections_def)

lemma bottom_loop_unset_end:
  "\<exists>l\<in>set ls. \<not> startswith l sp \<Longrightarrow>
   bottom_loop sp None (enumerate k ls) secs st = Inl TypeError"
  by (induction ls arbitrary: k secs st) (auto split: option.splits)

lemma move_to_bottom_unset_end:
  "\<exists>l\<in>set (split_char newline D). \<not> startswith l sp \<Longrightarrow>
   move_to_bottom D sp None = Inl TypeError"
  by (simp add: move_to_bottom_def bottom_loop_unset_end)

text \<open>
  Claim C4. With the end marker unset, \<open>move_to_bottom\<close> does not behave as
  \<open>move_to_top\<close> does: on a three-line document whose second line starts with the
  start marker, \<open>move_to_top\<close> moves the section that runs to the end of the document,
  while \<open>move_to_bottom\<close> raises \<open>TypeError\<close> at the first line, which does not start
  with the start marker.
\<close>

theorem move_to_bottom_unset_end_raises:
  "move_to_bottom
     (join_char newline [''intro'', ''<a name=\"ByDate\"></a>'', ''body'']) ''<a name=\"By'' None =
     Inl TypeError \<and>
   move_to_top
     (join_char newline [''intro'', ''<a name=\"ByDate\"></a>'', ''body'']) ''<a name=\"By'' None =
     join_char newline [''<a name=\"ByDate\"></a>'', ''body'', ''intro'']"
  by code_simp

section \<open>Properties of scanning and searching\<close>

lemma re_sub_skip: "re_sub m r (length xs) (xs @ s) = re_sub m r 0 s"
  by (induction xs) auto

lemma re_sub_match:
  assumes "m s = Some n" "0 < n" "n \<le> length s"
  shows "re_sub m r 0 s = r (take n s) @ re_sub m r 0 (drop n s)"
proof -
  obtain c cs where s: "s = c # cs" using assms(2,3) by (cases s) auto
  obtain k where n: "n = Suc k" using assms(2) by (cases n) auto
  have k: "k \<le> length cs" using assms(3) s n by simp
  have "re_sub m r k cs = re_sub m r (length (take k cs)) (take k cs @ drop k cs)"
    using k by simp
  also have "\<dots> = re_sub m r 0 (drop k cs)" by (rule re_sub_skip)
  finally show ?thesis using assms(1) s n by simp
qed

lemma re_sub_no_match_prefix:
  "list_all (\<lambda>i. m (drop i (pre @ s)) = None) [0..<length pre] \<Longrightarrow>
   re_sub m r 0 (pre @ s) = pre @ re_sub m r 0 s"
proof (induction pre)
  case Nil
  then show ?case by simp
next
  case (Cons c pre)
  have a: "\<forall>i<Suc (length pre). m (drop i (c # pre @ s)) = None"
    using Cons.prems unfolding list_all_iff by (auto simp del: upt_Suc)
  have h0: "m (c # pre @ s) = None" using a by (metis drop0 zero_less_Suc)
  have "\<forall>i<length pre. m (drop i (pre @ s)) = None"
  proof (intro allI impI)
    fix i assume "i < length pre"
    then have "m (drop (Suc i) (c # pre @ s)) = None" using a by blast
    then show "m (drop i (pre @ s)) = None" by simp
  qed
  then have "re_sub m r 0 (pre @ s) = pre @ re_sub m r 0 s"
    using Cons.IH by (simp add: list_all_iff)
  then show ?case using h0 by simp
qed

lemma re_sub_no_match:
  "list_all (\<lambda>i. m (drop i s) = None) [0..<length s] \<Longrightarrow> re_sub m r 0 s = s"
  using re_sub_no_match_prefix[of m s "[]" r] by simp

lemma prefix_append_long:
  "length p \<le> length xs \<Longrightarrow> prefix p (xs @ ys) = prefix p xs"
  using prefix_length_prefix[of p "xs @ ys" xs] prefix_prefix[of p xs ys] by auto

lemma find_str_Some:
  "find_str p s = Some n \<Longrightarrow> n \<le> length s \<and> prefix p (drop n s) \<and> (\<forall>i<n. \<not> prefix p (drop i s))"
proof (induction s arbitrary: n)
  case Nil
  then show ?case by (auto split: if_splits)
next
  case (Cons c cs)
  show ?case
  proof (cases "prefix p (c # cs)")
    case True
    then show ?thesis using Cons.prems by simp
  next
    case False
    then obtain k where k: "find_str p cs = Some k" "n = Suc k"
      using Cons.prems by auto
    have ih: "k \<le> length cs \<and> prefix p (drop k cs) \<and> (\<forall>i<k. \<not> prefix p (drop i cs))"
      using Cons.IH[OF k(1)] .
    have "\<forall>i<Suc k. \<not> prefix p (drop i (c # cs))"
    proof (intro allI impI)
      fix i assume i: "i < Suc k"
      show "\<not> prefix p (drop i (c # cs))"
      proof (cases i)
        case 0 then show ?thesis using False by simp
      next
        case (Suc j) then show ?thesis using ih i by simp
      qed
    qed
    then show ?thesis using ih k(2) by simp
  qed
qed

lemma find_str_None: "find_str p s = None \<Longrightarrow> \<not> prefix p (drop i s)"
proof (induction s arbitrary: i)
  case Nil
  then show ?case by (auto split: if_splits)
next
  case (Cons c cs)
  then have np: "\<not> prefix p (c # cs)" and n: "find_str p cs = None" by (auto split: if_splits)
  show ?case using np Cons.IH[OF n] by (cases i) auto
qed

lemma find_str_first:
  "prefix p (drop n s) \<Longrightarrow> n \<le> length s \<Longrightarrow> \<forall>i<n. \<not> prefix p (drop i s) \<Longrightarrow> find_str p s = Some n"
proof (induction s arbitrary: n)
  case Nil
  then show ?case by auto
next
  case (Cons c cs)
  show ?case
  proof (cases n)
    case 0
    then show ?thesis using Cons.prems by simp
  next
    case (Suc k)
    have np: "\<not> prefix p (c # cs)" using Cons.prems(3) Suc by (metis drop0 zero_less_Suc)
    have "\<forall>i<k. \<not> prefix p (drop i cs)"
    proof (intro allI impI)
      fix i assume "i < k"
      then have "\<not> prefix p (drop (Suc i) (c # cs))" using Cons.prems(3) Suc by blast
      then show "\<not> prefix p (drop i cs)" by simp
    qed
    then have "find_str p cs = Some k" using Cons.IH[of k] Cons.prems Suc by simp
    then show ?thesis using np Suc by simp
  qed
qed

lemma find_str_extend:
  assumes "find_str p (a @ p) = Some (length a)"
  shows "find_str p (a @ p @ post) = Some (length a)"
proof (rule find_str_first)
  show "prefix p (drop (length a) (a @ p @ post))" by simp
  show "length a \<le> length (a @ p @ post)" by simp
  show "\<forall>i<length a. \<not> prefix p (drop i (a @ p @ post))"
  proof (intro allI impI)
    fix i assume i: "i < length a"
    have "\<not> prefix p (drop i (a @ p))" using find_str_Some[OF assms] i by blast
    moreover have "drop i (a @ p @ post) = drop i (a @ p) @ post" using i by simp
    moreover have "length p \<le> length (drop i (a @ p))" using i by simp
    ultimately show "\<not> prefix p (drop i (a @ p @ post))" by (simp add: prefix_append_long del: drop_append)
  qed
qed

section \<open>Properties of \<open>remove_output_blocks\<close>\<close>

lemma output_pattern_at_span:
  assumes "find_str fence (mid @ fence) = Some (length mid)"
  shows "output_pattern (output_marker @ mid @ fence @ post) =
           Some (length (output_marker @ mid @ fence))"
  using find_str_extend[OF assms, of post]
  by (simp add: output_pattern_def)

lemma output_pattern_before_marker:
  assumes "find_str output_marker (pre @ output_marker) = Some (length pre)"
    and "i < length pre"
  shows "output_pattern (drop i (pre @ output_marker @ rest)) = None"
proof -
  have "\<not> prefix output_marker (drop i (pre @ output_marker))"
    using find_str_Some[OF assms(1)] assms(2) by blast
  moreover have "drop i (pre @ output_marker @ rest) = drop i (pre @ output_marker) @ rest"
    using assms(2) by simp
  moreover have "length output_marker \<le> length (drop i (pre @ output_marker))"
    using assms(2) by simp
  ultimately have "\<not> prefix output_marker (drop i (pre @ output_marker @ rest))"
    by (simp add: prefix_append_long del: drop_append)
  then show ?thesis by (simp add: output_pattern_def)
qed

lemma output_pattern_no_marker:
  assumes "find_str output_marker content = None"
  shows "output_pattern (drop i content) = None"
  using find_str_None[OF assms, of i] by (simp add: output_pattern_def)

lemma find_str_drop_None: "find_str p s = None \<Longrightarrow> find_str p (drop i s) = None"
proof (induction s arbitrary: i)
  case Nil
  then show ?case by simp
next
  case (Cons c cs)
  then have n: "find_str p cs = None" by (auto split: if_splits)
  show ?case
  proof (cases i)
    case 0
    then show ?thesis using Cons.prems by simp
  next
    case (Suc j)
    then show ?thesis using Cons.IH[OF n, of j] by simp
  qed
qed

lemma output_pattern_no_fence:
  assumes "find_str fence rest = None" "length pre \<le> i"
  shows "output_pattern (drop i (pre @ output_marker @ rest)) = None"
proof (cases "prefix output_marker (drop i (pre @ output_marker @ rest))")
  case False
  then show ?thesis by (simp add: output_pattern_def)
next
  case True
  have "drop (length output_marker) (drop i (pre @ output_marker @ rest)) =
          drop (i - length pre) rest"
    using assms(2) by (simp add: output_marker_def)
  then have "find_str fence (drop (length output_marker) (drop i (pre @ output_marker @ rest))) = None"
    using find_str_drop_None[OF assms(1)] by simp
  then show ?thesis by (simp add: output_pattern_def)
qed

lemma remove_output_blocks_no_fence:
  assumes "find_str output_marker (pre @ output_marker) = Some (length pre)"
    and "find_str fence rest = None"
  shows "remove_output_blocks (pre @ output_marker @ rest) = pre @ output_marker @ rest"
proof -
  have "\<And>i. output_pattern (drop i (pre @ output_marker @ rest)) = None"
  proof -
    fix i
    show "output_pattern (drop i (pre @ output_marker @ rest)) = None"
    proof (cases "i < length pre")
      case True
      then show ?thesis using output_pattern_before_marker[OF assms(1)] by blast
    next
      case False
      then show ?thesis using output_pattern_no_fence[OF assms(2), of pre i] by simp
    qed
  qed
  then have "list_all (\<lambda>i. output_pattern (drop i (pre @ output_marker @ rest)) = None)
      [0..<length (pre @ output_marker @ rest)]"
    unfolding list_all_iff by blast
  then show ?thesis unfolding remove_output_blocks_def by (rule re_sub_no_match)
qed

text \<open>
  Claim C8. A span of the content runs from a literal \<open>// Output:\<close> marker (the first one
  in the text still to be scanned) to the first \<open>```\<close> behind it. \<open>remove_output_blocks\<close>
  deletes the marker and everything up to, but not including, that \<open>```\<close>; the \<open>```\<close>
  stays, the text before the marker stays as it is (also on the marker's own line), and
  the text after the \<open>```\<close> is treated in the same way. Content outside such spans is
  unchanged: a text without the marker is returned as it is, and so is a text whose first
  marker has no \<open>```\<close> behind it.
\<close>

theorem remove_output_blocks_span:
  "(find_str output_marker (pre @ output_marker) = Some (length pre) \<longrightarrow>
    find_str fence (mid @ fence) = Some (length mid) \<longrightarrow>
    remove_output_blocks (pre @ output_marker @ mid @ fence @ post) =
      pre @ fence @ remove_output_blocks post) \<and>
   (find_str output_marker content = None \<longrightarrow> remove_output_blocks content = content) \<and>
   (find_str output_marker (pre @ output_marker) = Some (length pre) \<longrightarrow>
    find_str fence rest = None \<longrightarrow>
    remove_output_blocks (pre @ output_marker @ rest) = pre @ output_marker @ rest)"
proof (intro conjI impI)
  assume a: "find_str output_marker (pre @ output_marker) = Some (length pre)"
    and b: "find_str fence (mid @ fence) = Some (length mid)"
  let ?span = "output_marker @ mid @ fence"
  have nm: "list_all (\<lambda>i. output_pattern (drop i (pre @ ?span @ post)) = None) [0..<length pre]"
    unfolding list_all_iff using output_pattern_before_marker[OF a] by simp
  have m: "output_pattern (?span @ post) = Some (length ?span)"
    using output_pattern_at_span[OF b, of post] by simp
  have "re_sub output_pattern (\<lambda>matched. ''```'') 0 (?span @ post) =
          ''```'' @ re_sub output_pattern (\<lambda>matched. ''```'') 0 (drop (length ?span) (?span @ post))"
    using re_sub_match[of output_pattern "?span @ post" "length ?span" "\<lambda>matched. ''```''"] m
    by (simp add: output_marker_def)
  then have "re_sub output_pattern (\<lambda>matched. ''```'') 0 (?span @ post) =
          fence @ re_sub output_pattern (\<lambda>matched. ''```'') 0 post"
    by (simp add: fence_def)
  then show "remove_output_blocks (pre @ output_marker @ mid @ fence @ post) =
      pre @ fence @ remove_output_blocks post"
    unfolding remove_output_blocks_def
    using re_sub_no_match_prefix[OF nm, of "\<lambda>matched. ''```''"] by simp
next
  assume "find_str output_marker content = None"
  then have "list_all (\<lambda>i. output_pattern (drop i content) = None) [0..<length content]"
    unfolding list_all_iff using output_pattern_no_marker by blast
  then show "remove_output_blocks content = content"
    unfolding remove_output_blocks_def by (rule re_sub_no_match)
next
  assume "find_str output_marker (pre @ output_marker) = Some (length pre)"
    and "find_str fence rest = None"
  then show "remove_output_blocks (pre @ output_marker @ rest) = pre @ output_marker @ rest"
    by (rule remove_output_blocks_no_fence)
qed

theorem remove_output_blocks_span_witness:
  "find_str output_marker (''x := 1\<newline>'' @ output_marker) = Some (length ''x := 1\<newline>'') \<and>
   find_str fence (''\<newline>some text\<newline>'' @ fence) = Some (length ''\<newline>some text\<newline>'') \<and>
   remove_output_blocks ''x := 1\<newline>// Output:\<newline>some text\<newline>```\<newline>after'' =
     ''x := 1\<newline>```\<newline>after'' \<and>
   find_str output_marker ''\<newline>after'' = None \<and>
   remove_output_blocks ''\<newline>after'' = ''\<newline>after'' \<and>
   find_str fence ''\<newline>b'' = None \<and>
   remove_output_blocks ''x := 1\<newline>// Output:\<newline>b'' = ''x := 1\<newline>// Output:\<newline>b''"
proof -
  note inst = remove_output_blocks_span[of "''x := 1\<newline>''" "''\<newline>some text\<newline>''" "''\<newline>after''"
      "''\<newline>after''" "''\<newline>b''"]
  have a: "find_str output_marker (''x := 1\<newline>'' @ output_marker) = Some (length ''x := 1\<newline>'')"
    by code_simp
  have b: "find_str fence (''\<newline>some text\<newline>'' @ fence) = Some (length ''\<newline>some text\<newline>'')"
    by code_simp
  have c: "find_str output_marker ''\<newline>after'' = None"
    by code_simp
  have f: "find_str fence ''\<newline>b'' = None"
    by code_simp
  have d: "remove_output_blocks ''\<newline>after'' = ''\<newline>after''"
    using inst c by blast
  have e: "remove_output_blocks (''x := 1\<newline>'' @ output_marker @ ''\<newline>some text\<newline>'' @ fence @ ''\<newline>after'') =
      ''x := 1\<newline>'' @ fence @ remove_output_blocks ''\<newline>after''"
    using inst a b by blast
  have g: "remove_output_blocks (''x := 1\<newline>'' @ output_marker @ ''\<newline>b'') =
      ''x := 1\<newline>'' @ output_marker @ ''\<newline>b''"
    using inst a f by blast
  show ?thesis using a b c d e f g by (simp add: output_marker_def fence_def)
qed

section \<open>Properties of \<open>correct_escaping_in_links\<close>\<close>

lemma link_pattern_at_link:
  assumes "body \<noteq> []" "CHR '']'' \<notin> set body"
  shows "link_pattern (''[/v1'' @ body @ '']'' @ post) = Some (length (''[/v1'' @ body @ '']''))"
proof -
  have "takeWhile (\<lambda>c. c \<noteq> CHR '']'') (body @ CHR '']'' # post) = body"
  proof -
    have "\<forall>x\<in>set body. x \<noteq> CHR '']''" using assms(2) by auto
    then show ?thesis by (simp add: takeWhile_append2)
  qed
  then show ?thesis using assms(1) by (simp add: link_pattern_def)
qed

lemma remove_escapes_and_check_braces_link:
  "remove_escapes_and_check_braces (''[/v1'' @ body @ '']'') =
     (let cleaned = filter (\<lambda>c. c \<noteq> CHR 0x5C) (''/v1'' @ body) in
      if CHR ''{'' \<in> set cleaned \<or> CHR ''}'' \<in> set cleaned
      then ''[`'' @ cleaned @ ''`]'' else ''['' @ cleaned @ '']'')"
  by (simp add: remove_escapes_and_check_braces_def Let_def butlast_append)

text \<open>
  Claim C6. At an occurrence of bracketed link text \<open>[/v1\<dots>]\<close> (the first match of the
  pattern in the text still to be scanned), \<open>correct_escaping_in_links\<close> removes every
  backslash of the occurrence; if the text without backslashes contains \<open>{\<close> or \<open>}\<close>, the
  text between the brackets is wrapped in backticks, otherwise removing the backslashes
  is the only change. The text before the occurrence is untouched and the text after it
  is treated in the same way. In particular \<open>[/v1/plain]\<close> is returned unchanged.
\<close>

theorem correct_escaping_in_links_occurrence:
  "(list_all (\<lambda>i. link_pattern (drop i (pre @ ''[/v1'' @ body @ '']'' @ post)) = None)
       [0..<length pre] \<longrightarrow>
    body \<noteq> [] \<longrightarrow> CHR '']'' \<notin> set body \<longrightarrow>
    correct_escaping_in_links (pre @ ''[/v1'' @ body @ '']'' @ post) =
      pre @
      (let cleaned = filter (\<lambda>c. c \<noteq> CHR 0x5C) (''/v1'' @ body) in
       if CHR ''{'' \<in> set cleaned \<or> CHR ''}'' \<in> set cleaned
       then ''[`'' @ cleaned @ ''`]'' else ''['' @ cleaned @ '']'') @
      correct_escaping_in_links post) \<and>
   correct_escaping_in_links ''[/v1/plain]'' = ''[/v1/plain]''"
proof (intro conjI impI)
  let ?link = "''[/v1'' @ body @ '']''"
  assume nm: "list_all (\<lambda>i. link_pattern (drop i (pre @ ''[/v1'' @ body @ '']'' @ post)) = None)
       [0..<length pre]"
    and ne: "body \<noteq> []" and nb: "CHR '']'' \<notin> set body"
  have m: "link_pattern (?link @ post) = Some (length ?link)"
    using link_pattern_at_link[OF ne nb, of post] by simp
  have "re_sub link_pattern remove_escapes_and_check_braces 0 (?link @ post) =
          remove_escapes_and_check_braces (take (length ?link) (?link @ post)) @
          re_sub link_pattern remove_escapes_and_check_braces 0 (drop (length ?link) (?link @ post))"
    using re_sub_match[of link_pattern "?link @ post" "length ?link" remove_escapes_and_check_braces] m
    by simp
  then have "correct_escaping_in_links (?link @ post) =
      remove_escapes_and_check_braces ?link @ correct_escaping_in_links post"
    unfolding correct_escaping_in_links_def by simp
  moreover have "correct_escaping_in_links (pre @ ?link @ post) =
      pre @ correct_escaping_in_links (?link @ post)"
    unfolding correct_escaping_in_links_def
    using re_sub_no_match_prefix[of link_pattern pre "?link @ post" remove_escapes_and_check_braces] nm
    by simp
  ultimately show "correct_escaping_in_links (pre @ ''[/v1'' @ body @ '']'' @ post) =
      pre @
      (let cleaned = filter (\<lambda>c. c \<noteq> CHR 0x5C) (''/v1'' @ body) in
       if CHR ''{'' \<in> set cleaned \<or> CHR ''}'' \<in> set cleaned
       then ''[`'' @ cleaned @ ''`]'' else ''['' @ cleaned @ '']'') @
      correct_escaping_in_links post"
    using remove_escapes_and_check_braces_link[of body] by simp
next
  show "correct_escaping_in_links ''[/v1/plain]'' = ''[/v1/plain]''"
    by code_simp
qed

theorem correct_escaping_in_links_occurrence_witness:
  "list_all (\<lambda>i. link_pattern (drop i (''see '' @ ''[/v1'' @ ([CHR 0x5C] @ ''/foo/{bar}'') @ '']'' @ ''(x)'')) = None)
       [0..<length ''see ''] \<and>
   [CHR 0x5C] @ ''/foo/{bar}'' \<noteq> [] \<and> CHR '']'' \<notin> set ([CHR 0x5C] @ ''/foo/{bar}'') \<and>
   correct_escaping_in_links (''see [/v1'' @ [CHR 0x5C] @ ''/foo/{bar}](x)'') =
     ''see [`/v1/foo/{bar}`]'' @ correct_escaping_in_links ''(x)''"
proof -
  have a: "list_all (\<lambda>i. link_pattern (drop i (''see '' @ ''[/v1'' @ ([CHR 0x5C] @ ''/foo/{bar}'') @ '']'' @ ''(x)'')) = None)
       [0..<length ''see '']"
    by code_simp
  have b: "[CHR 0x5C] @ ''/foo/{bar}'' \<noteq> []" by simp
  have c: "CHR '']'' \<notin> set ([CHR 0x5C] @ ''/foo/{bar}'')" by simp
  have "correct_escaping_in_links (''see '' @ ''[/v1'' @ ([CHR 0x5C] @ ''/foo/{bar}'') @ '']'' @ ''(x)'') =
      ''see '' @
      (let cleaned = filter (\<lambda>c. c \<noteq> CHR 0x5C) (''/v1'' @ ([CHR 0x5C] @ ''/foo/{bar}'')) in
       if CHR ''{'' \<in> set cleaned \<or> CHR ''}'' \<in> set cleaned
       then ''[`'' @ cleaned @ ''`]'' else ''['' @ cleaned @ '']'') @
      correct_escaping_in_links ''(x)''"
    using correct_escaping_in_links_occurrence[of "''see ''" "[CHR 0x5C] @ ''/foo/{bar}''" "''(x)''"] a b c
    by blast
  then show ?thesis using a b c by simp
qed

section \<open>Properties of the Combiner\<close>

lemma read_all_Some: "read_all (map Some texts) acc = Some (acc @ combined_text texts)"
  by (induction texts arbitrary: acc) (auto simp: combined_text_def)

lemma url_loop_unbound:
  "list_all (\<lambda>url. \<not> contains url ''/sdk/'' \<and> \<not> contains url ''/api/'') urls \<Longrightarrow>
   snd (url_loop table urls c) = None"
  by (induction urls arbitrary: c) (auto split: option.splits simp: Let_def)

lemma url_loop_skipped:
  assumes "list_all (\<lambda>url. \<not> contains url ''/sdk/'' \<and> \<not> contains url ''/api/'') skipped"
    and "contains url ''/sdk/'' \<or> contains url ''/api/''"
    and "map_of table url \<noteq> None"
  shows "url_loop table (skipped @ url # rest) c =
     (concat (map (header_of table) (rev (skipped @ [url]))) @ c,
      Some (''go/'' @ last (split_str (if contains url ''/sdk/'' then ''/go/'' else ''/api/'') url)
              @ ''.mdx''))"
  using assms(1)
proof (induction skipped arbitrary: c)
  case Nil
  then show ?case using assms(2,3) by (auto simp: header_of_def Let_def)
next
  case (Cons s skipped)
  then have l: "\<not> contains s ''/sdk/''" "\<not> contains s ''/api/''"
    and r: "list_all (\<lambda>url. \<not> contains url ''/sdk/'' \<and> \<not> contains url ''/api/'') skipped"
    by auto
  show ?case
  proof (cases "map_of table s")
    case None
    then show ?thesis using Cons.IH[OF r, of c] by (simp add: header_of_def)
  next
    case (Some info)
    then show ?thesis using l Cons.IH[OF r, of "header_text info @ c"]
      by (simp add: header_of_def Let_def)
  qed
qed

lemma URL_TO_INFO_segments:
  "list_all (\<lambda>(url, info). contains url ''/sdk/'' \<or> contains url ''/api/'') URL_TO_INFO"
  by code_simp

text \<open>
  Claim C5. When every file is read and none of the URLs found in the combined content
  is a key of the metadata table, the run ends with exit code 1, its diagnostic lists
  the URLs found and the keys of the table that were not found, and no file has been
  written.
\<close>

theorem no_matching_url_exits:
  assumes "list_all (\<lambda>url. map_of table url = None) (urls_found (combined_text texts))"
  shows "combine_step table (map Some texts) =
           Process_Exit 1 (urls_found (combined_text texts))
             (filter (\<lambda>url. url \<notin> set (urls_found (combined_text texts))) (map fst table)) \<and>
         files_written (combine_step table (map Some texts)) = []"
proof -
  have "urls_to_process table (combined_text texts) = []"
    using assms by (simp add: urls_to_process_def list_all_iff filter_empty_conv)
  then show ?thesis
    by (simp add: combine_step_def combine_files_into_mdx_def read_all_Some)
qed

theorem no_matching_url_exits_witness:
  "list_all (\<lambda>url. map_of URL_TO_INFO url = None)
     (urls_found (combined_text [''see https://example.com/a for x'', ''body''])) \<and>
   combine_step URL_TO_INFO (map Some [''see https://example.com/a for x'', ''body'']) =
     Process_Exit 1 [''https://example.com/a''] (map fst URL_TO_INFO) \<and>
   files_written (combine_step URL_TO_INFO (map Some [''see https://example.com/a for x'', ''body''])) = []"
proof -
  let ?T = "[''see https://example.com/a for x'', ''body'']"
  have u: "urls_found (combined_text ?T) = [''https://example.com/a'']"
    by code_simp
  have h: "list_all (\<lambda>url. map_of URL_TO_INFO url = None) (urls_found (combined_text ?T))"
    unfolding u by code_simp
  have f: "filter (\<lambda>url. url \<notin> set [''https://example.com/a'']) (map fst URL_TO_INFO) =
             map fst URL_TO_INFO"
    by code_simp
  show ?thesis
    using no_matching_url_exits[OF h] h unfolding u f by blast
qed

text \<open>
  Claim C9. When at least one URL of the combined content is a key of the table and no
  such URL contains \<open>/sdk/\<close> or \<open>/api/\<close>, the variable \<open>output_filename\<close> is never assigned
  and \<open>combine_files_into_mdx\<close> raises \<open>UnboundLocalError\<close> instead of returning. (Every key
  of the shipped table contains one of the two segments, see \<open>URL_TO_INFO_segments\<close>; the
  case arises once a key without them is added.)
\<close>

theorem unbound_output_filename:
  assumes "urls_to_process table (combined_text texts) \<noteq> []"
    and "list_all (\<lambda>url. \<not> contains url ''/sdk/'' \<and> \<not> contains url ''/api/'')
           (urls_to_process table (combined_text texts))"
  shows "combine_files_into_mdx table (map Some texts) = Raised UnboundLocalError"
proof -
  obtain c where "url_loop table (urls_to_process table (combined_text texts)) (combined_text texts) = (c, None)"
    using url_loop_unbound[OF assms(2), of table "combined_text texts"]
    by (metis prod.collapse)
  then show ?thesis using assms(1)
    by (simp add: combine_files_into_mdx_def read_all_Some)
qed

theorem unbound_output_filename_witness:
  "urls_to_process (URL_TO_INFO @ [(''https://example.com/a'', \<lparr>title = ''A'', sidebar_position = 12\<rparr>)])
     (combined_text [''see (https://example.com/a)'']) = [''https://example.com/a''] \<and>
   \<not> contains ''https://example.com/a'' ''/sdk/'' \<and>
   \<not> contains ''https://example.com/a'' ''/api/'' \<and>
   combine_files_into_mdx
     (URL_TO_INFO @ [(''https://example.com/a'', \<lparr>title = ''A'', sidebar_position = 12\<rparr>)])
     (map Some [''see (https://example.com/a)'']) = Raised UnboundLocalError"
proof -
  let ?tab = "URL_TO_INFO @ [(''https://example.com/a'', \<lparr>title = ''A'', sidebar_position = 12\<rparr>)]"
  let ?T = "[''see (https://example.com/a)'']"
  have u: "urls_to_process ?tab (combined_text ?T) = [''https://example.com/a'']"
    by code_simp
  have c: "\<not> contains ''https://example.com/a'' ''/sdk/''" "\<not> contains ''https://example.com/a'' ''/api/''"
    by code_simp+
  have a: "urls_to_process ?tab (combined_text ?T) \<noteq> []" unfolding u by simp
  have b: "list_all (\<lambda>url. \<not> contains url ''/sdk/'' \<and> \<not> contains url ''/api/'')
           (urls_to_process ?tab (combined_text ?T))"
    unfolding u using c by simp
  show ?thesis using unbound_output_filename[OF a b] u c by blast
qed

text \<open>
  Claim C10. The loop prepends the header of every matching URL it visits, up to and
  including the first one that contains \<open>/sdk/\<close> or \<open>/api/\<close>: the returned content is the
  header of that URL, followed by the headers of the URLs skipped before it (latest
  first), followed by the combined text. So it begins with more than one front-matter
  block whenever the matching URL visited first lacks both segments.
\<close>

theorem header_per_iterated_url:
  assumes "urls_to_process table (combined_text texts) = skipped @ url # rest"
    and "list_all (\<lambda>url. \<not> contains url ''/sdk/'' \<and> \<not> contains url ''/api/'') skipped"
    and "contains url ''/sdk/'' \<or> contains url ''/api/''"
  shows "combine_files_into_mdx table (map Some texts) =
           Returned
             (Some (add_imports
                (concat (map (header_of table) (rev (skipped @ [url]))) @ combined_text texts)))
             (Some (''go/'' @
                last (split_str (if contains url ''/sdk/'' then ''/go/'' else ''/api/'') url) @
                ''.mdx''))"
proof -
  have "url \<in> set (urls_to_process table (combined_text texts))"
    using assms(1) by simp
  then have m: "map_of table url \<noteq> None" by (simp add: urls_to_process_def)
  show ?thesis
    using url_loop_skipped[OF assms(2,3) m, of rest "combined_text texts"] assms(1)
    by (simp add: combine_files_into_mdx_def read_all_Some)
qed

theorem header_per_iterated_url_witness:
  "urls_to_process (URL_TO_INFO @ [(''https://example.com/a'', \<lparr>title = ''A'', sidebar_position = 12\<rparr>)])
     (combined_text [''see (https://example.com/a) <https://www.marketdata.app/docs/sdk/go/client>'']) =
     [''https://example.com/a''] @ ''https://www.marketdata.app/docs/sdk/go/client'' # [] \<and>
   \<not> contains ''https://example.com/a'' ''/sdk/'' \<and>
   \<not> contains ''https://example.com/a'' ''/api/'' \<and>
   contains ''https://www.marketdata.app/docs/sdk/go/client'' ''/sdk/'' \<and>
   combine_files_into_mdx
     (URL_TO_INFO @ [(''https://example.com/a'', \<lparr>title = ''A'', sidebar_position = 12\<rparr>)])
     (map Some [''see (https://example.com/a) <https://www.marketdata.app/docs/sdk/go/client>'']) =
     Returned
       (Some (''---\<newline>title: Client\<newline>sidebar_position: 3\<newline>---\<newline>\<newline>'' @
              ''---\<newline>title: A\<newline>sidebar_position: 12\<newline>---\<newline>\<newline>'' @
              ''see (https://example.com/a) <https://www.marketdata.app/docs/sdk/go/client>\<newline>\<newline>''))
       (Some ''go/client.mdx'')"
proof -
  let ?tab = "URL_TO_INFO @ [(''https://example.com/a'', \<lparr>title = ''A'', sidebar_position = 12\<rparr>)]"
  let ?T = "[''see (https://example.com/a) <https://www.marketdata.app/docs/sdk/go/client>'']"
  let ?u = "''https://www.marketdata.app/docs/sdk/go/client''"
  have u: "urls_to_process ?tab (combined_text ?T) = [''https://example.com/a''] @ ?u # []"
    by code_simp
  have c: "\<not> contains ''https://example.com/a'' ''/sdk/''" "\<not> contains ''https://example.com/a'' ''/api/''"
    by code_simp+
  have d: "contains ?u ''/sdk/''" by code_simp
  have b: "list_all (\<lambda>url. \<not> contains url ''/sdk/'' \<and> \<not> contains url ''/api/'') [''https://example.com/a'']"
    using c by simp
  have e: "contains ?u ''/sdk/'' \<or> contains ?u ''/api/''" using d by simp
  have v: "add_imports (concat (map (header_of ?tab) (rev ([''https://example.com/a''] @ [?u]))) @ combined_text ?T) =
       ''---\<newline>title: Client\<newline>sidebar_position: 3\<newline>---\<newline>\<newline>'' @
              ''---\<newline>title: A\<newline>sidebar_position: 12\<newline>---\<newline>\<newline>'' @
              ''see (https://example.com/a) <https://www.marketdata.app/docs/sdk/go/client>\<newline>\<newline>''"
    by code_simp
  have w: "''go/'' @ last (split_str (if contains ?u ''/sdk/'' then ''/go/'' else ''/api/'') ?u) @ ''.mdx'' = ''go/client.mdx''"
    by code_simp
  show ?thesis
    using header_per_iterated_url[OF u b e] u c d unfolding v w by blast
qed

section \<open>Behaviour of \<open>move_responses_to_top\<close>\<close>

text \<open>
  Claim C2. On a document with one \<open>Response\<close> anchor followed by one other anchor,
  the collection of non-response patterns holds the last character of the other
  anchor's name (\<open>o\<close> for \<open>Foo\<close>), not the name; no anchor of that name exists, so no
  end marker is found and the response section is moved to the top together with
  everything behind it. With the nearest following non-\<open>Response\<close> anchor as end marker
  the section would end before the anchor \<open>Foo\<close>.
\<close>

theorem move_responses_to_top_end_marker:
  "re_findall response_struct_pattern 0
     (join_char newline
        [''intro'', ''<a name=\"AResponse\"></a>'', ''resp body'', ''<a name=\"Foo\"></a>'', ''foo body'']) =
     [''AResponse''] \<and>
   re_findall non_response_pattern 0
     (join_char newline
        [''intro'', ''<a name=\"AResponse\"></a>'', ''resp body'', ''<a name=\"Foo\"></a>'', ''foo body'']) =
     [''o''] \<and>
   find_end_pattern
     (join_char newline
        [''intro'', ''<a name=\"AResponse\"></a>'', ''resp body'', ''<a name=\"Foo\"></a>'', ''foo body''])
     (anchor_tag ''AResponse'') [''o''] = None \<and>
   move_responses_to_top
     (join_char newline
        [''intro'', ''<a name=\"AResponse\"></a>'', ''resp body'', ''<a name=\"Foo\"></a>'', ''foo body'']) =
     join_char newline
        [''<a name=\"AResponse\"></a>'', ''resp body'', ''<a name=\"Foo\"></a>'', ''foo body'', ''intro''] \<and>
   move_to_top
     (join_char newline
        [''intro'', ''<a name=\"AResponse\"></a>'', ''resp body'', ''<a name=\"Foo\"></a>'', ''foo body''])
     (anchor_tag ''AResponse'') (Some (anchor_tag ''Foo'')) =
     join_char newline
        [''<a name=\"AResponse\"></a>'', ''resp body'', ''intro'', ''<a name=\"Foo\"></a>'', ''foo body'']"
  by code_simp

text \<open>
  The order of first occurrence is one of the possible iteration orders, and on the
  document above the outcome does not depend on the order: each of the two sets has one
  element.
\<close>

lemma first_occurrences_set_order: "set_order found (first_occurrences found)"
  by (simp add: set_order_def first_occurrences_def)

lemma set_order_single: "set_order [x] order \<Longrightarrow> order = [x]"
proof -
  assume a: "set_order [x] order"
  then have d: "distinct order" and s: "set order = {x}" by (simp_all add: set_order_def)
  then obtain y ys where o: "order = y # ys" by (cases order) auto
  then have "y = x" using s by auto
  moreover have "ys = []"
  proof (cases ys)
    case Nil then show ?thesis .
  next
    case (Cons z zs)
    then have "z = x" "z \<noteq> y" using s d o by auto
    then show ?thesis using \<open>y = x\<close> by simp
  qed
  ultimately show ?thesis using o by simp
qed

lemma move_responses_to_top_any_order:
  assumes "set_order (re_findall response_struct_pattern 0
        (join_char newline
           [''intro'', ''<a name=\"AResponse\"></a>'', ''resp body'', ''<a name=\"Foo\"></a>'', ''foo body''])) rs"
    and "set_order (re_findall non_response_pattern 0
        (join_char newline
           [''intro'', ''<a name=\"AResponse\"></a>'', ''resp body'', ''<a name=\"Foo\"></a>'', ''foo body''])) ns"
  shows "move_responses_to_top_in rs ns
      (join_char newline
         [''intro'', ''<a name=\"AResponse\"></a>'', ''resp body'', ''<a name=\"Foo\"></a>'', ''foo body'']) =
      join_char newline
         [''<a name=\"AResponse\"></a>'', ''resp body'', ''<a name=\"Foo\"></a>'', ''foo body'', ''intro'']"
proof -
  let ?doc = "join_char newline
         [''intro'', ''<a name=\"AResponse\"></a>'', ''resp body'', ''<a name=\"Foo\"></a>'', ''foo body'']"
  have r: "re_findall response_struct_pattern 0 ?doc = [''AResponse'']" by code_simp
  have n: "re_findall non_response_pattern 0 ?doc = [''o'']" by code_simp
  have rs: "rs = [''AResponse'']" using assms(1) unfolding r by (rule set_order_single)
  have ns: "ns = [''o'']" using assms(2) unfolding n by (rule set_order_single)
  show ?thesis unfolding rs ns by code_simp
qed

section \<open>Behaviour of \<open>find_method_blocks_and_relocate\<close>\<close>

text \<open>
  Claim C1. On a document whose method blocks stand in the order \<open>Raw\<close>, \<open>Get\<close>,
  \<open>Packed\<close>, the result does not have the three blocks in the order \<open>Get\<close>, \<open>Packed\<close>,
  \<open>Raw\<close> under the heading \<open>## TRequest Execution Methods\<close>: the heading and the anchor
  of the next type are deleted, the \<open>Get\<close> block stays at its place and is there twice,
  and the line \<open>## type U\<close> stands between the pasted blocks.
\<close>

theorem find_method_blocks_and_relocate_raw_get_packed:
  "find_method_blocks_and_relocate
     (join_char newline
        [''<a name=\"TRequest\"></a>'', ''## type TRequest'',
         ''<a name=\"TRequest.Raw\"></a>'', ''raw body'',
         ''<a name=\"TRequest.Get\"></a>'', ''get body'',
         ''<a name=\"TRequest.Packed\"></a>'', ''packed body'',
         ''<a name=\"U\"></a>'', ''## type U'']) =
   Inr (join_char newline
        [''<a name=\"TRequest\"></a>'', ''## TRequest Setter Methods'', ''## type TRequest'',
         ''<a name=\"TRequest.Get\"></a>'', ''get body'',
         ''<a name=\"TRequest.Get\"></a>'', ''get body'',
         ''## type U'',
         ''<a name=\"TRequest.Packed\"></a>'', ''packed body'',
         ''<a name=\"TRequest.Raw\"></a>'', ''raw body''])"
  by code_simp

end
